theory Spec2Isabelle
  imports Complex_Main "HOL-Library.Log_Nat"
begin

section \<open>Values of type float64\<close>

text \<open>
  The program computes on Go's \<^verbatim>\<open>float64\<close>. A value is a finite real number, one of the
  two zeros (\<open>Fin 0\<close> is the positive zero, \<open>NegZero\<close> the negative one), an infinity or
  NaN. Division by a zero is what the hardware does: a signed infinity, or NaN for
  \<open>0 / 0\<close>.

  The arithmetic is given twice. The operations \<open>fadd\<close>, \<open>fsub\<close>, \<open>fmul\<close> and \<open>fdiv\<close> of
  this section compute finite results exactly: they are the program's formulas read in
  exact arithmetic, and only the properties stated in exact arithmetic use them. The
  operations \<open>fadd64\<close>, \<open>fsub64\<close>, \<open>fmul64\<close> and \<open>fdiv64\<close> of the next section round every
  finite result to the nearest binary64 value, ties to even, with overflow to an infinity
  and gradual underflow: they are what the program executes. The special values and the
  comparisons are the same in both.
\<close>

datatype float64 = Fin real | NegZero | PInf | NInf | NaN

fun val :: "float64 \<Rightarrow> real" where
  "val (Fin r) = r"
| "val NegZero = 0"
| "val PInf = 0"
| "val NInf = 0"
| "val NaN = 0"

fun is_finite :: "float64 \<Rightarrow> bool" where
  "is_finite (Fin r) = True"
| "is_finite NegZero = True"
| "is_finite PInf = False"
| "is_finite NInf = False"
| "is_finite NaN = False"

fun is_zero :: "float64 \<Rightarrow> bool" where
  "is_zero (Fin r) = (r = 0)"
| "is_zero NegZero = True"
| "is_zero PInf = False"
| "is_zero NInf = False"
| "is_zero NaN = False"

fun is_inf :: "float64 \<Rightarrow> bool" where
  "is_inf PInf = True"
| "is_inf NInf = True"
| "is_inf (Fin r) = False"
| "is_inf NegZero = False"
| "is_inf NaN = False"

text \<open>The sign bit (of no use on NaN).\<close>

fun sign_neg :: "float64 \<Rightarrow> bool" where
  "sign_neg (Fin r) = (r < 0)"
| "sign_neg NegZero = True"
| "sign_neg PInf = False"
| "sign_neg NInf = True"
| "sign_neg NaN = False"

definition signed_inf :: "bool \<Rightarrow> float64" where
  "signed_inf neg = (if neg then NInf else PInf)"

definition signed_zero :: "bool \<Rightarrow> float64" where
  "signed_zero neg = (if neg then NegZero else Fin 0)"

text \<open>
  Addition: NaN is absorbing, opposite infinities give NaN, an infinity absorbs every
  finite value, \<open>-0 + -0 = -0\<close>, and every other exact zero sum is \<open>+0\<close>
  (round to nearest).
\<close>

definition fadd :: "float64 \<Rightarrow> float64 \<Rightarrow> float64" where
  "fadd x y =
     (if x = NaN \<or> y = NaN then NaN
      else if is_inf x \<and> is_inf y then (if x = y then x else NaN)
      else if is_inf x then x
      else if is_inf y then y
      else if x = NegZero \<and> y = NegZero then NegZero
      else Fin (val x + val y))"

fun fneg :: "float64 \<Rightarrow> float64" where
  "fneg (Fin r) = (if r = 0 then NegZero else Fin (- r))"
| "fneg NegZero = Fin 0"
| "fneg PInf = NInf"
| "fneg NInf = PInf"
| "fneg NaN = NaN"

definition fsub :: "float64 \<Rightarrow> float64 \<Rightarrow> float64" where
  "fsub x y = fadd x (fneg y)"

text \<open>Multiplication and division: the sign of the result is the exclusive or of the signs.\<close>

definition fmul :: "float64 \<Rightarrow> float64 \<Rightarrow> float64" where
  "fmul x y =
     (if x = NaN \<or> y = NaN then NaN
      else if (is_inf x \<and> is_zero y) \<or> (is_zero x \<and> is_inf y) then NaN
      else if is_inf x \<or> is_inf y then signed_inf (sign_neg x \<noteq> sign_neg y)
      else if is_zero x \<or> is_zero y then signed_zero (sign_neg x \<noteq> sign_neg y)
      else Fin (val x * val y))"

definition fdiv :: "float64 \<Rightarrow> float64 \<Rightarrow> float64" where
  "fdiv x y =
     (if x = NaN \<or> y = NaN then NaN
      else if (is_inf x \<and> is_inf y) \<or> (is_zero x \<and> is_zero y) then NaN
      else if is_inf x \<or> is_zero y then signed_inf (sign_neg x \<noteq> sign_neg y)
      else if is_zero x \<or> is_inf y then signed_zero (sign_neg x \<noteq> sign_neg y)
      else Fin (val x / val y))"

text \<open>
  The comparisons \<^verbatim>\<open><\<close> and \<^verbatim>\<open>>\<close>: false as soon as an operand is NaN, the two zeros
  are equal, the infinities are the extremes.
\<close>

definition flt :: "float64 \<Rightarrow> float64 \<Rightarrow> bool" where
  "flt x y =
     (if x = NaN \<or> y = NaN then False
      else if x = PInf \<or> y = NInf then False
      else if x = NInf \<or> y = PInf then True
      else val x < val y)"

definition fgt :: "float64 \<Rightarrow> float64 \<Rightarrow> bool" where
  "fgt x y = flt y x"

section \<open>Arithmetic rounded to binary64\<close>

text \<open>
  \<open>expo x\<close> is the binary exponent of \<open>x\<close>, the integer \<open>e\<close> with
  \<open>2^e \<le> |x| < 2^(e+1)\<close>; \<open>quantum x\<close> is the distance between neighbouring binary64
  values at \<open>x\<close> (53 significant bits, exponent at least -1022); \<open>round64\<close> rounds a real
  number to the nearest multiple of the quantum, ties to the even multiple, and overflows
  to an infinity from \<open>2^1024\<close> on. A result that rounds to zero keeps the sign of the
  exact value.
\<close>

definition expo :: "real \<Rightarrow> int" where
  "expo x = (if 1 \<le> \<bar>x\<bar> then bitlen \<lfloor>\<bar>x\<bar>\<rfloor> - 1 else - bitlen (\<lceil>1 / \<bar>x\<bar>\<rceil> - 1))"

definition round_half_even :: "real \<Rightarrow> int" where
  "round_half_even x =
     (if x - of_int \<lfloor>x\<rfloor> < 1 / 2 then \<lfloor>x\<rfloor>
      else if 1 / 2 < x - of_int \<lfloor>x\<rfloor> then \<lfloor>x\<rfloor> + 1
      else if even \<lfloor>x\<rfloor> then \<lfloor>x\<rfloor> else \<lfloor>x\<rfloor> + 1)"

definition quantum :: "real \<Rightarrow> real" where
  "quantum x = 2 powi (max (expo x) (- 1022) - 52)"

definition round64 :: "real \<Rightarrow> float64" where
  "round64 x =
     (let r = of_int (round_half_even (x / quantum x)) * quantum x
      in if 2 ^ 1024 \<le> \<bar>r\<bar> then signed_inf (x < 0)
         else if r = 0 then signed_zero (x < 0)
         else Fin r)"

definition is_float64 :: "float64 \<Rightarrow> bool" where
  "is_float64 x = (case x of Fin r \<Rightarrow> round64 r = Fin r | _ \<Rightarrow> True)"

definition fadd64 :: "float64 \<Rightarrow> float64 \<Rightarrow> float64" where
  "fadd64 x y =
     (if x = NaN \<or> y = NaN then NaN
      else if is_inf x \<and> is_inf y then (if x = y then x else NaN)
      else if is_inf x then x
      else if is_inf y then y
      else if x = NegZero \<and> y = NegZero then NegZero
      else round64 (val x + val y))"

definition fsub64 :: "float64 \<Rightarrow> float64 \<Rightarrow> float64" where
  "fsub64 x y = fadd64 x (fneg y)"

definition fmul64 :: "float64 \<Rightarrow> float64 \<Rightarrow> float64" where
  "fmul64 x y =
     (if x = NaN \<or> y = NaN then NaN
      else if (is_inf x \<and> is_zero y) \<or> (is_zero x \<and> is_inf y) then NaN
      else if is_inf x \<or> is_inf y then signed_inf (sign_neg x \<noteq> sign_neg y)
      else if is_zero x \<or> is_zero y then signed_zero (sign_neg x \<noteq> sign_neg y)
      else round64 (val x * val y))"

definition fdiv64 :: "float64 \<Rightarrow> float64 \<Rightarrow> float64" where
  "fdiv64 x y =
     (if x = NaN \<or> y = NaN then NaN
      else if (is_inf x \<and> is_inf y) \<or> (is_zero x \<and> is_zero y) then NaN
      else if is_inf x \<or> is_zero y then signed_inf (sign_neg x \<noteq> sign_neg y)
      else if is_zero x \<or> is_inf y then signed_zero (sign_neg x \<noteq> sign_neg y)
      else round64 (val x / val y))"




section \<open>The data model\<close>

record Odds =
  Win :: float64
  Draw :: float64
  Lose :: float64

record Game =
  ID :: string
  TeamA :: string
  TeamB :: string
  Odds :: Odds
  EventAt :: string

record Bookmaker =
  Name :: string
  Games :: "Game list"

section \<open>Rounding to two decimals\<close>


section \<open>Arbitrage percentage and stakes\<close>

text \<open>The formulas read in exact arithmetic.\<close>

definition calculateArbitragePercentage :: "Odds \<Rightarrow> float64" where
  "calculateArbitragePercentage odds =
     fadd (fadd (fdiv (Fin 1) (Win odds)) (fdiv (Fin 1) (Draw odds))) (fdiv (Fin 1) (Lose odds))"

definition calculateStakes :: "Odds \<Rightarrow> float64 \<Rightarrow> float64 \<times> float64 \<times> float64" where
  "calculateStakes odds totalBet =
     (let arbitragePercentage = calculateArbitragePercentage odds;
          winStake = fdiv (fdiv totalBet arbitragePercentage) (Win odds);
          drawStake = fdiv (fdiv totalBet arbitragePercentage) (Draw odds);
          loseStake = fdiv (fdiv totalBet arbitragePercentage) (Lose odds)
      in (winStake, drawStake, loseStake))"

text \<open>The same functions as the program executes them, every operation rounded.\<close>

definition calculateArbitragePercentage64 :: "Odds \<Rightarrow> float64" where
  "calculateArbitragePercentage64 odds =
     fadd64 (fadd64 (fdiv64 (Fin 1) (Win odds)) (fdiv64 (Fin 1) (Draw odds)))
            (fdiv64 (Fin 1) (Lose odds))"

definition calculateStakes64 :: "Odds \<Rightarrow> float64 \<Rightarrow> float64 \<times> float64 \<times> float64" where
  "calculateStakes64 odds totalBet =
     (let arbitragePercentage = calculateArbitragePercentage64 odds;
          winStake = fdiv64 (fdiv64 totalBet arbitragePercentage) (Win odds);
          drawStake = fdiv64 (fdiv64 totalBet arbitragePercentage) (Draw odds);
          loseStake = fdiv64 (fdiv64 totalBet arbitragePercentage) (Lose odds)
      in (winStake, drawStake, loseStake))"

section \<open>Best odds per game\<close>

text \<open>
  \<^verbatim>\<open>currentBest, exists := bestOdds[game.ID]\<close> yields the zero value of \<open>Odds\<close> when the
  key is absent.
\<close>

definition zero_Odds :: Odds where
  "zero_Odds = \<lparr>Win = Fin 0, Draw = Fin 0, Lose = Fin 0\<rparr>"

text \<open>The body of the inner loop of \<^verbatim>\<open>findBestOdds\<close>.\<close>

definition update_best :: "(string \<rightharpoonup> Odds) \<Rightarrow> Game \<Rightarrow> (string \<rightharpoonup> Odds)" where
  "update_best bestOdds game =
     (let exists = (bestOdds (ID game) \<noteq> None);
          currentBest = (case bestOdds (ID game) of None \<Rightarrow> zero_Odds | Some b \<Rightarrow> b);
          currentBest = (if \<not> exists \<or> fgt (Win (Odds game)) (Win currentBest)
                         then currentBest\<lparr>Win := Win (Odds game)\<rparr> else currentBest);
          currentBest = (if \<not> exists \<or> fgt (Draw (Odds game)) (Draw currentBest)
                         then currentBest\<lparr>Draw := Draw (Odds game)\<rparr> else currentBest);
          currentBest = (if \<not> exists \<or> fgt (Lose (Odds game)) (Lose currentBest)
                         then currentBest\<lparr>Lose := Lose (Odds game)\<rparr> else currentBest)
      in bestOdds(ID game \<mapsto> currentBest))"

fun games_loop :: "(string \<rightharpoonup> Odds) \<Rightarrow> Game list \<Rightarrow> (string \<rightharpoonup> Odds)" where
  "games_loop bestOdds [] = bestOdds"
| "games_loop bestOdds (game # games) = games_loop (update_best bestOdds game) games"

fun bookmakers_loop :: "(string \<rightharpoonup> Odds) \<Rightarrow> Bookmaker list \<Rightarrow> (string \<rightharpoonup> Odds)" where
  "bookmakers_loop bestOdds [] = bestOdds"
| "bookmakers_loop bestOdds (bookmaker # bookmakers) =
     bookmakers_loop (games_loop bestOdds (Games bookmaker)) bookmakers"

definition findBestOdds :: "Bookmaker list \<Rightarrow> (string \<rightharpoonup> Odds)" where
  "findBestOdds bookmakers = bookmakers_loop Map.empty bookmakers"

section \<open>Reporting arbitrage opportunities\<close>

text \<open>
  \<^verbatim>\<open>findArbitrageOpportunities\<close> prints one block per game whose arbitrage percentage
  is below 1. The model returns the printed values, unformatted, one record per block.
\<close>

record Report =
  gameID :: string
  odds :: Odds
  winStake :: float64
  drawStake :: float64
  loseStake :: float64
  guaranteedProfit :: float64

text \<open>\<^verbatim>\<open>totalStake := winStake + drawStake + loseStake\<close>\<close>

definition totalStake :: "float64 \<times> float64 \<times> float64 \<Rightarrow> float64" where
  "totalStake stakes = (case stakes of (w, d, l) \<Rightarrow> fadd (fadd w d) l)"

text \<open>The body of the loop over the best odds.\<close>

definition report_game :: "string \<Rightarrow> Odds \<Rightarrow> Report option" where
  "report_game g os =
     (let arbitragePercentage = calculateArbitragePercentage os
      in if flt arbitragePercentage (Fin 1) then
           (let totalBet = Fin 100;
                stakes = calculateStakes os totalBet;
                profit = fsub (fdiv totalBet arbitragePercentage) (totalStake stakes)
            in Some \<lparr>gameID = g, odds = os,
                      winStake = fst stakes, drawStake = fst (snd stakes),
                      loseStake = snd (snd stakes), guaranteedProfit = profit\<rparr>)
         else None)"

text \<open>
  Go iterates over a map in an unspecified order; \<open>order\<close> is the order in which the
  runtime happens to visit the keys.
\<close>

definition findArbitrageOpportunities :: "string list \<Rightarrow> Bookmaker list \<Rightarrow> Report list" where
  "findArbitrageOpportunities order bookmakers =
     (let bestOdds = findBestOdds bookmakers
      in List.map_filter
           (\<lambda>g. case bestOdds g of None \<Rightarrow> None | Some os \<Rightarrow> report_game g os) order)"

text \<open>The same loop as the program executes it, every operation rounded.\<close>

definition totalStake64 :: "float64 \<times> float64 \<times> float64 \<Rightarrow> float64" where
  "totalStake64 stakes = (case stakes of (w, d, l) \<Rightarrow> fadd64 (fadd64 w d) l)"

definition report_game64 :: "string \<Rightarrow> Odds \<Rightarrow> Report option" where
  "report_game64 g os =
     (let arbitragePercentage = calculateArbitragePercentage64 os
      in if flt arbitragePercentage (Fin 1) then
           (let totalBet = Fin 100;
                stakes = calculateStakes64 os totalBet;
                profit = fsub64 (fdiv64 totalBet arbitragePercentage) (totalStake64 stakes)
            in Some \<lparr>gameID = g, odds = os,
                      winStake = fst stakes, drawStake = fst (snd stakes),
                      loseStake = snd (snd stakes), guaranteedProfit = profit\<rparr>)
         else None)"


section \<open>Vocabulary of the properties\<close>

text \<open>
  Odds read from a file or generated are finite. \<open>arbitrage_percentage_spec\<close> is the
  specification's formula over the real numbers; \<open>quotes_for\<close> lists every quote of a
  game id, bookmaker by bookmaker. The example data are those of the specification:
  bookmaker A quotes 2.10, 3.00, 4.00 and bookmaker B quotes 1.90, 3.50, 4.20 for the same
  game, whose best odds are 2.10, 3.50, 4.20; B quotes that game a second time, and a
  second game has the odds 3, 4, 5. These decimal odds are read in exact arithmetic.
  \<open>example_bookmakers64\<close> has odds that are binary64 values: the best odds of its first
  game are 2, 3, 6 and its second game has the odds 2, 2, 2. \<open>is_float64\<close> holds of the
  values a float64 variable can hold, \<open>ulp_min\<close> is the smallest positive one,
  \<open>moderate\<close> holds of the finite values of magnitude between \<open>2^-20\<close> and \<open>2^20\<close>, and
  \<open>within_tolerance a b\<close> says that \<open>a\<close> is within the relative tolerance \<open>1e-9\<close> of
  \<open>b\<close>.
\<close>

definition finite_Odds :: "Odds \<Rightarrow> bool" where
  "finite_Odds os = (is_finite (Win os) \<and> is_finite (Draw os) \<and> is_finite (Lose os))"

definition quotes_for :: "Bookmaker list \<Rightarrow> string \<Rightarrow> Game list" where
  "quotes_for bookmakers k = filter (\<lambda>q. ID q = k) (concat (map Games bookmakers))"

definition nonzero_Odds :: "Odds \<Rightarrow> bool" where
  "nonzero_Odds os = (\<not> is_zero (Win os) \<and> \<not> is_zero (Draw os) \<and> \<not> is_zero (Lose os))"

definition arbitrage_percentage_spec :: "Odds \<Rightarrow> real" where
  "arbitrage_percentage_spec os = 1 / val (Win os) + 1 / val (Draw os) + 1 / val (Lose os)"

definition quote :: "string \<Rightarrow> real \<Rightarrow> real \<Rightarrow> real \<Rightarrow> Game" where
  "quote i w d l =
     \<lparr>ID = i, TeamA = ''home'', TeamB = ''away'',
      Odds = \<lparr>Win = Fin w, Draw = Fin d, Lose = Fin l\<rparr>, EventAt = ''2024-01-01''\<rparr>"

definition example_Odds :: Odds where
  "example_Odds = \<lparr>Win = Fin (21 / 10), Draw = Fin (35 / 10), Lose = Fin (42 / 10)\<rparr>"

definition example_bookmakers :: "Bookmaker list" where
  "example_bookmakers =
     [\<lparr>Name = ''A'', Games = [quote ''e1'' (21 / 10) 3 4, quote ''e2'' 3 4 5]\<rparr>,
      \<lparr>Name = ''B'', Games = [quote ''e1'' (19 / 10) (35 / 10) (42 / 10),
                              quote ''e1'' 2 (32 / 10) (41 / 10)]\<rparr>]"

definition float64_Odds :: "Odds \<Rightarrow> bool" where
  "float64_Odds os = (is_float64 (Win os) \<and> is_float64 (Draw os) \<and> is_float64 (Lose os))"

definition ulp_min :: real where
  "ulp_min = 2 powi (- 1074)"

definition within_tolerance :: "real \<Rightarrow> real \<Rightarrow> bool" where
  "within_tolerance a b = (\<bar>a - b\<bar> \<le> \<bar>b\<bar> / 10 ^ 9)"

definition moderate :: "float64 \<Rightarrow> bool" where
  "moderate p = (is_finite p \<and> 2 powi (- 20) \<le> \<bar>val p\<bar> \<and> \<bar>val p\<bar> \<le> 2 powi 20)"


section \<open>Rounding to the nearest binary64 value\<close>

lemma round_half_even_error: "\<bar>of_int (round_half_even x) - x\<bar> \<le> 1 / 2"
proof -
  have "of_int \<lfloor>x\<rfloor> \<le> x" "x < of_int \<lfloor>x\<rfloor> + 1" by linarith+
  then show ?thesis by (auto simp: round_half_even_def abs_le_iff)
qed

lemma round_half_even_of_int [simp]: "round_half_even (of_int n) = n"
  by (simp add: round_half_even_def)



lemma expo_bounds:
  assumes "x \<noteq> 0"
  shows "2 powi expo x \<le> \<bar>x\<bar> \<and> \<bar>x\<bar> < 2 powi (expo x + 1)"
proof (cases "1 \<le> \<bar>x\<bar>")
  case True
  let ?n = "\<lfloor>\<bar>x\<bar>\<rfloor>"
  have n: "0 < ?n" using True by linarith
  have L: "1 \<le> bitlen ?n" using n by (auto simp: bitlen_alt_def)
  from bitlen_bounds [OF n] have b: "2 ^ nat (bitlen ?n - 1) \<le> ?n" "?n < 2 ^ nat (bitlen ?n)"
    by auto
  have e: "expo x = bitlen ?n - 1" using True by (simp add: expo_def)
  have "(2::real) powi (bitlen ?n - 1) = 2 ^ nat (bitlen ?n - 1)"
    using L by (simp add: power_int_def)
  also have "\<dots> = of_int (2 ^ nat (bitlen ?n - 1))" by simp
  also have "\<dots> \<le> of_int ?n" using b(1) by (simp only: of_int_le_iff)
  also have "\<dots> \<le> \<bar>x\<bar>" by linarith
  finally have lo: "2 powi expo x \<le> \<bar>x\<bar>" by (simp add: e)
  have "?n + 1 \<le> 2 ^ nat (bitlen ?n)" using b(2) by linarith
  then have "of_int (?n + 1) \<le> (of_int (2 ^ nat (bitlen ?n)) :: real)"
    by (simp only: of_int_le_iff)
  then have A: "of_int ?n + 1 \<le> (2 ^ nat (bitlen ?n) :: real)" by simp
  have "\<bar>x\<bar> < of_int ?n + 1" by linarith
  with A have "\<bar>x\<bar> < 2 ^ nat (bitlen ?n)" by linarith
  also have "\<dots> = (2::real) powi (bitlen ?n)"
    using L by (simp add: power_int_def)
  finally have "\<bar>x\<bar> < 2 powi (expo x + 1)" by (simp add: e)
  with lo show ?thesis by simp
next
  case False
  let ?y = "1 / \<bar>x\<bar>"
  let ?m = "\<lceil>?y\<rceil> - 1"
  have ax: "0 < \<bar>x\<bar>" "\<bar>x\<bar> < 1" using assms False by auto
  then have y: "1 < ?y" by simp
  have m: "0 < ?m" using y by linarith
  let ?L = "bitlen ?m"
  have L: "1 \<le> ?L" using m by (auto simp: bitlen_alt_def)
  from bitlen_bounds [OF m] have b: "2 ^ nat (?L - 1) \<le> ?m" "?m < 2 ^ nat ?L" by auto
  have e: "expo x = - ?L" using False by (simp add: expo_def)
  have "?m + 1 \<le> 2 ^ nat ?L" using b(2) by linarith
  then have "of_int (?m + 1) \<le> (of_int (2 ^ nat ?L) :: real)" by (simp only: of_int_le_iff)
  then have A: "of_int ?m + 1 \<le> (2 ^ nat ?L :: real)" by simp
  have "?y \<le> of_int ?m + 1" by linarith
  with A have "?y \<le> 2 ^ nat ?L" by linarith
  then have "1 \<le> 2 ^ nat ?L * \<bar>x\<bar>" using ax(1) by (simp add: field_simps)
  then have "1 / 2 ^ nat ?L \<le> \<bar>x\<bar>" by (simp add: field_simps)
  moreover have "(2::real) powi (- ?L) = 1 / 2 ^ nat ?L"
    using L by (simp add: power_int_def field_simps)
  ultimately have lo: "2 powi expo x \<le> \<bar>x\<bar>" by (simp add: e)
  have "(of_int (2 ^ nat (?L - 1)) :: real) \<le> of_int ?m" using b(1) by (simp only: of_int_le_iff)
  then have B: "(2 ^ nat (?L - 1) :: real) \<le> of_int ?m" by simp
  have "of_int ?m < ?y" by linarith
  with B have "2 ^ nat (?L - 1) < ?y" by linarith
  then have "2 ^ nat (?L - 1) * \<bar>x\<bar> < 1" using ax(1) by (simp add: field_simps)
  then have "\<bar>x\<bar> < 1 / 2 ^ nat (?L - 1)" by (simp add: field_simps)
  moreover have "(2::real) powi (- ?L + 1) = 1 / 2 ^ nat (?L - 1)"
  proof (cases "?L = 1")
    case True then show ?thesis by simp
  next
    case False
    then have "- ?L + 1 < 0" using L by simp
    moreover have "nat (- (- ?L + 1)) = nat (?L - 1)" by simp
    ultimately show ?thesis by (simp add: power_int_def field_simps del: nat_diff_split)
  qed
  ultimately have "\<bar>x\<bar> < 2 powi (expo x + 1)" by (simp add: e)
  with lo show ?thesis by simp
qed

lemma expo_eqI:
  assumes "2 powi e \<le> \<bar>x\<bar>" and "\<bar>x\<bar> < 2 powi (e + 1)"
  shows "expo x = e"
proof -
  have "0 < (2::real) powi e" by simp
  with assms(1) have "0 < \<bar>x\<bar>" by linarith
  then have nz: "x \<noteq> 0" by simp
  note b = expo_bounds [OF nz]
  have "(2::real) powi e < 2 powi (expo x + 1)" using assms(1) b by linarith
  then have 1: "e < expo x + 1"
    by (metis linorder_not_less one_le_numeral power_int_increasing leD)
  have "(2::real) powi expo x < 2 powi (e + 1)" using assms(2) b by linarith
  then have 2: "expo x < e + 1"
    by (metis linorder_not_less one_le_numeral power_int_increasing leD)
  from 1 2 show ?thesis by simp
qed


lemma quantum_pos: "0 < quantum x"
  by (simp add: quantum_def)

lemma quantum_normal:
  assumes "2 powi e \<le> \<bar>x\<bar>" and "\<bar>x\<bar> < 2 powi (e + 1)" and "- 1022 \<le> e"
  shows "quantum x = 2 powi (e - 52)"
  using expo_eqI [OF assms(1,2)] assms(3) by (simp add: quantum_def max_def)

lemma quantum_subnormal:
  assumes "x \<noteq> 0" and "\<bar>x\<bar> < 2 powi (- 1022)"
  shows "quantum x = 2 powi (- 1074)"
proof -
  have "(2::real) powi expo x < 2 powi (- 1022)"
    using expo_bounds [OF assms(1)] assms(2) by linarith
  then have "expo x < - 1022"
    by (metis linorder_not_less one_le_numeral power_int_increasing leD)
  then show ?thesis by (simp add: quantum_def max_def)
qed

lemma round_half_even_le: "x \<le> of_int m \<Longrightarrow> round_half_even x \<le> m"
proof -
  assume x: "x \<le> of_int m"
  then have f: "\<lfloor>x\<rfloor> \<le> m" by (simp add: floor_le_iff)
  show ?thesis
  proof (cases "\<lfloor>x\<rfloor> = m")
    case True
    have "of_int \<lfloor>x\<rfloor> \<le> x" by simp
    with x True have "x = of_int m" by simp
    then show ?thesis by simp
  next
    case False
    with f have "\<lfloor>x\<rfloor> + 1 \<le> m" by simp
    with f show ?thesis by (auto simp: round_half_even_def)
  qed
qed

lemma round_half_even_ge: "of_int m \<le> x \<Longrightarrow> m \<le> round_half_even x"
proof -
  assume "of_int m \<le> x"
  then have "m \<le> \<lfloor>x\<rfloor>" by (simp add: le_floor_iff)
  then show ?thesis by (auto simp: round_half_even_def)
qed

lemma round_half_even_abs_le: "\<bar>x\<bar> \<le> of_int m \<Longrightarrow> \<bar>round_half_even x\<bar> \<le> m"
proof -
  assume a: "\<bar>x\<bar> \<le> of_int m"
  then have "x \<le> of_int m" and "of_int (- m) \<le> x" by (simp_all add: abs_le_iff)
  then have "round_half_even x \<le> m" and "- m \<le> round_half_even x"
    by (simp_all only: round_half_even_le round_half_even_ge)
  then show ?thesis by simp
qed

lemma round64_normal_bounds:
  assumes "2 powi e \<le> \<bar>x\<bar>" and "\<bar>x\<bar> < 2 powi (e + 1)"
  defines "n \<equiv> round_half_even (x / 2 powi (e - 52))"
  shows "2 ^ 52 \<le> \<bar>n\<bar>" and "\<bar>n\<bar> \<le> 2 ^ 53"
    and "\<bar>of_int n * 2 powi (e - 52)\<bar> \<le> (2::real) powi (e + 1)"
proof -
  let ?q = "(2::real) powi (e - 52)"
  have q: "0 < ?q" by simp
  have e1: "2 powi (e + 1) = 2 ^ 53 * ?q"
  proof -
    have eq: "53 + (e - 52) = e + 1" by simp
    have "(2::real) powi (53 + (e - 52)) = 2 powi 53 * ?q" by (rule power_int_add) simp
    then have "(2::real) powi (e + 1) = 2 powi 53 * ?q" by (simp only: eq)
    then show ?thesis by simp
  qed
  have e0: "2 powi e = 2 ^ 52 * ?q"
  proof -
    have eq: "52 + (e - 52) = e" by simp
    have "(2::real) powi (52 + (e - 52)) = 2 powi 52 * ?q" by (rule power_int_add) simp
    then have "(2::real) powi e = 2 powi 52 * ?q" by (simp only: eq)
    then show ?thesis by simp
  qed
  have ax: "\<bar>x / ?q\<bar> = \<bar>x\<bar> / ?q" by simp
  have up: "\<bar>x / ?q\<bar> \<le> of_int (2 ^ 53)"
  proof -
    have "\<bar>x\<bar> \<le> 2 ^ 53 * ?q" using assms(2) e1 by simp
    then have "\<bar>x\<bar> / ?q \<le> 2 ^ 53" using q by (simp add: field_simps)
    then show ?thesis by (simp only: ax) simp
  qed
  have lo: "of_int (2 ^ 52) \<le> \<bar>x / ?q\<bar>"
  proof -
    have "2 ^ 52 * ?q \<le> \<bar>x\<bar>" using assms(1) e0 by simp
    then have "2 ^ 52 \<le> \<bar>x\<bar> / ?q" using q by (simp add: field_simps)
    then show ?thesis by (simp only: ax) simp
  qed
  show n53: "\<bar>n\<bar> \<le> 2 ^ 53"
    unfolding n_def by (rule round_half_even_abs_le [OF up])
  show "2 ^ 52 \<le> \<bar>n\<bar>"
  proof (cases "0 \<le> x")
    case True
    then have "0 \<le> x / ?q" using q by simp
    then have "\<bar>x / ?q\<bar> = x / ?q" by (rule abs_of_nonneg)
    with lo have "of_int (2 ^ 52) \<le> x / ?q" by (simp only:)
    then have "2 ^ 52 \<le> n" unfolding n_def by (rule round_half_even_ge)
    then show ?thesis by simp
  next
    case False
    then have "x / ?q < 0" using q by (simp add: divide_neg_pos)
    then have "\<bar>x / ?q\<bar> = - (x / ?q)" by (rule abs_of_neg)
    with lo have "of_int (2 ^ 52) \<le> - (x / ?q)" by (simp only:)
    then have "x / ?q \<le> - of_int (2 ^ 52)" by linarith
    then have "x / ?q \<le> of_int (- (2 ^ 52))" by (simp only: of_int_minus)
    then have "n \<le> - (2 ^ 52)" unfolding n_def by (rule round_half_even_le)
    then show ?thesis by simp
  qed
  have "\<bar>of_int n * ?q\<bar> = of_int \<bar>n\<bar> * ?q" by (simp add: abs_mult)
  also have "\<dots> \<le> of_int (2 ^ 53) * ?q"
  proof (rule mult_right_mono)
    show "(of_int \<bar>n\<bar> :: real) \<le> of_int (2 ^ 53)" using n53 by (simp only: of_int_le_iff)
    show "0 \<le> ?q" using q by simp
  qed
  also have "\<dots> = 2 powi (e + 1)" using e1 by simp
  finally show "\<bar>of_int n * ?q\<bar> \<le> (2::real) powi (e + 1)" .
qed

lemma round64_normal:
  assumes "2 powi e \<le> \<bar>x\<bar>" and "\<bar>x\<bar> < 2 powi (e + 1)" and "- 1022 \<le> e" and "e \<le> 1022"
      and "round_half_even (x / 2 powi (e - 52)) = n"
  shows "round64 x = Fin (of_int n * 2 powi (e - 52))"
proof -
  let ?r = "of_int n * (2::real) powi (e - 52)"
  note b = round64_normal_bounds [OF assms(1,2), unfolded assms(5)]
  have "n \<noteq> 0" using b(1) by auto
  then have nz: "?r \<noteq> 0" by simp
  have "\<bar>?r\<bar> \<le> 2 powi (e + 1)" by (rule b(3))
  also have "\<dots> \<le> (2::real) powi 1023" using assms(4) by (intro power_int_increasing) simp_all
  also have "\<dots> < 2 powi 1024" by (intro power_int_strict_increasing) simp_all
  finally have "\<bar>?r\<bar> < 2 ^ 1024" by simp
  then have "\<not> 2 ^ 1024 \<le> \<bar>?r\<bar>" by (simp only: not_le)
  then show ?thesis
    using nz by (simp add: round64_def quantum_normal [OF assms(1-3)] Let_def assms(5))
qed

lemma round64_subnormal:
  assumes "x \<noteq> 0" and "\<bar>x\<bar> < 2 powi (- 1022)"
      and "round_half_even (x / 2 powi (- 1074)) = n" and "n \<noteq> 0"
  shows "round64 x = Fin (of_int n * 2 powi (- 1074))"
proof -
  have q: "quantum x = 2 powi (- 1074)" by (rule quantum_subnormal [OF assms(1,2)])
  let ?q = "(2::real) powi (- 1074)"
  have "\<bar>of_int n - x / ?q\<bar> \<le> 1 / 2"
    using round_half_even_error [of "x / ?q"] assms(3) by simp
  then have "\<bar>of_int n\<bar> \<le> \<bar>x / ?q\<bar> + 1 / 2" by linarith
  also have "\<bar>x / ?q\<bar> = \<bar>x\<bar> / ?q" by simp
  also have "\<bar>x\<bar> / ?q < 2 powi (- 1022) / ?q"
    using assms(2) by (simp add: divide_strict_right_mono)
  also have "2 powi (- 1022) / ?q = (2::real) powi 52"
    by (simp flip: power_int_diff)
  finally have "\<bar>of_int n\<bar> < (2::real) powi 52 + 1 / 2" by simp
  then have "\<bar>of_int n\<bar> * ?q < (2 powi 52 + 1 / 2) * ?q"
    by (simp add: mult_strict_right_mono)
  also have "\<dots> \<le> 2 powi 53 * ?q" by (simp add: mult_right_mono)
  also have "\<dots> = 2 powi (- 1021)" by (simp flip: power_int_add)
  also have "\<dots> \<le> 2 powi 1024" by (intro power_int_increasing) simp_all
  finally have "\<bar>of_int n * ?q\<bar> < 2 ^ 1024" by (simp add: abs_mult)
  then show ?thesis using assms(3,4) by (simp add: round64_def q Let_def)
qed

lemma round_half_even_zero [simp]: "round_half_even 0 = 0"
  by (simp add: round_half_even_def)

lemma round64_zero [simp]: "round64 0 = Fin 0"
  by (simp add: round64_def signed_zero_def Let_def)

lemma round64_not_NaN [simp]: "round64 x \<noteq> NaN"
  by (simp add: round64_def Let_def signed_inf_def signed_zero_def)



lemma expo_le:
  assumes "x \<noteq> 0" and "\<bar>x\<bar> \<le> 2 powi K"
  shows "expo x \<le> K"
proof -
  have "(2::real) powi expo x \<le> 2 powi K" using expo_bounds [OF assms(1)] assms(2) by linarith
  then show ?thesis
    by (metis linorder_not_less one_less_numeral_iff power_int_strict_increasing
        semiring_norm(76) leD)
qed

lemma quantum_le:
  assumes "x \<noteq> 0" and "\<bar>x\<bar> \<le> 2 powi K" and "- 1022 \<le> K"
  shows "quantum x \<le> 2 powi (K - 52)"
proof -
  have "max (expo x) (- 1022) - 52 \<le> K - 52" using expo_le [OF assms(1,2)] assms(3) by simp
  then show ?thesis unfolding quantum_def by (intro power_int_increasing) simp_all
qed

lemma round64_core:
  assumes "\<bar>x\<bar> \<le> 2 powi 1023"
  shows "is_finite (round64 x) \<and> \<bar>val (round64 x) - x\<bar> \<le> quantum x / 2"
proof (cases "x = 0")
  case True
  then show ?thesis using quantum_pos [of 0] by simp
next
  case False
  let ?q = "quantum x"
  let ?n = "round_half_even (x / ?q)"
  let ?r = "of_int ?n * ?q"
  have q: "0 < ?q" by (rule quantum_pos)
  have "\<bar>of_int ?n - x / ?q\<bar> \<le> 1 / 2" by (rule round_half_even_error)
  then have "\<bar>of_int ?n - x / ?q\<bar> * ?q \<le> 1 / 2 * ?q" using q by (intro mult_right_mono) simp_all
  moreover have "\<bar>of_int ?n - x / ?q\<bar> * ?q = \<bar>?r - x\<bar>"
  proof -
    have "\<bar>of_int ?n - x / ?q\<bar> * ?q = \<bar>(of_int ?n - x / ?q) * ?q\<bar>"
      using q by (simp add: abs_mult)
    also have "(of_int ?n - x / ?q) * ?q = ?r - x" using q by (simp add: field_simps)
    finally show ?thesis .
  qed
  ultimately have err: "\<bar>?r - x\<bar> \<le> ?q / 2" by simp
  have "?q \<le> 2 powi (1023 - 52)" using quantum_le [OF False assms] by simp
  then have ql: "?q \<le> 2 powi 971" by simp
  have "\<bar>?r\<bar> \<le> \<bar>x\<bar> + ?q / 2" using err by linarith
  also have "\<dots> \<le> 2 powi 1023 + 2 powi 971 / 2" using assms ql by linarith
  also have "\<dots> < (2::real) powi 1023 + 2 powi 1023"
  proof -
    have "(2::real) powi 971 \<le> 2 powi 1023" by (intro power_int_increasing) simp_all
    moreover have "0 < (2::real) powi 971" by simp
    ultimately show ?thesis by linarith
  qed
  also have "\<dots> = 2 powi 1024"
  proof -
    have "(2::real) powi (1023 + 1) = 2 powi 1023 * 2 powi 1" by (rule power_int_add) simp
    then show ?thesis by simp
  qed
  finally have "\<bar>?r\<bar> < 2 ^ 1024" by simp
  then have fin: "\<not> 2 ^ 1024 \<le> \<bar>?r\<bar>" by (simp only: not_le)
  have "round64 x = (if ?r = 0 then signed_zero (x < 0) else Fin ?r)"
    using fin by (simp add: round64_def Let_def)
  then have "is_finite (round64 x) \<and> val (round64 x) = ?r"
    by (auto simp: signed_zero_def)
  then show ?thesis using err by simp
qed


lemma round64_rel_error:
  assumes "2 powi (- 1022) \<le> \<bar>x\<bar>" and "\<bar>x\<bar> \<le> 2 powi 1023"
  shows "\<exists>r. round64 x = Fin r \<and> r \<noteq> 0 \<and> \<bar>r - x\<bar> \<le> 2 powi (- 53) * \<bar>x\<bar>"
proof -
  have "0 < (2::real) powi (- 1022)" by simp
  with assms(1) have ax: "0 < \<bar>x\<bar>" by linarith
  then have nz: "x \<noteq> 0" by simp
  note b = expo_bounds [OF nz]
  have "(2::real) powi (- 1022) < 2 powi (expo x + 1)" using assms(1) b by linarith
  then have "- 1022 < expo x + 1"
    by (metis linorder_not_less one_le_numeral power_int_increasing leD)
  then have e: "- 1022 \<le> expo x" by simp
  then have q: "quantum x = 2 powi (expo x - 52)" by (simp add: quantum_def max_def)
  have "(2::real) powi (expo x - 52) = 2 powi expo x * 2 powi (- 52)"
  proof -
    have eq: "expo x + (- 52) = expo x - 52" by simp
    have "(2::real) powi (expo x + (- 52)) = 2 powi expo x * 2 powi (- 52)"
      by (rule power_int_add) simp
    then show ?thesis by (simp only: eq)
  qed
  also have "\<dots> \<le> \<bar>x\<bar> * 2 powi (- 52)" using b by (intro mult_right_mono) simp_all
  finally have "quantum x \<le> \<bar>x\<bar> * 2 powi (- 52)" by (simp only: q)
  moreover have "(2::real) powi (- 52) = 2 * 2 powi (- 53)" by simp
  ultimately have qb: "quantum x / 2 \<le> 2 powi (- 53) * \<bar>x\<bar>" by simp
  note c = round64_core [OF assms(2)]
  have err: "\<bar>val (round64 x) - x\<bar> \<le> 2 powi (- 53) * \<bar>x\<bar>" using c qb by linarith
  have "2 powi (- 53) * \<bar>x\<bar> < 1 * \<bar>x\<bar>"
    using ax by (intro mult_strict_right_mono) simp_all
  then have "\<bar>val (round64 x) - x\<bar> < \<bar>x\<bar>" using err by linarith
  then have vnz: "val (round64 x) \<noteq> 0" by auto
  have "is_finite (round64 x)" using c by simp
  then have "round64 x = Fin (val (round64 x))" using vnz by (cases "round64 x") auto
  then show ?thesis using vnz err by metis
qed

lemma round64_overflow:
  assumes "2 powi 1024 \<le> \<bar>x\<bar>"
  shows "round64 x = signed_inf (x < 0)"
proof -
  have "0 < (2::real) powi 1024" by simp
  with assms have "0 < \<bar>x\<bar>" by linarith
  then have nz: "x \<noteq> 0" by simp
  note b = expo_bounds [OF nz]
  have "(2::real) powi 1024 < 2 powi (expo x + 1)" using assms b by linarith
  then have "1024 < expo x + 1"
    by (metis linorder_not_less one_le_numeral power_int_increasing leD)
  then have e: "1024 \<le> expo x" by simp
  then have q: "quantum x = 2 powi (expo x - 52)" by (simp add: quantum_def max_def)
  let ?n = "round_half_even (x / 2 powi (expo x - 52))"
  from round64_normal_bounds(1) [of "expo x" x] b have n: "2 ^ 52 \<le> \<bar>?n\<bar>" by simp
  have "(2::real) powi 1024 \<le> 2 powi expo x" using e by (intro power_int_increasing) simp_all
  also have "\<dots> = 2 ^ 52 * 2 powi (expo x - 52)"
  proof -
    have eq: "52 + (expo x - 52) = expo x" by simp
    have "(2::real) powi (52 + (expo x - 52)) = 2 powi 52 * 2 powi (expo x - 52)"
      by (rule power_int_add) simp
    then show ?thesis by (simp only: eq) simp
  qed
  also have "\<dots> \<le> of_int \<bar>?n\<bar> * 2 powi (expo x - 52)"
  proof (rule mult_right_mono)
    have "(of_int (2 ^ 52) :: real) \<le> of_int \<bar>?n\<bar>" using n by (simp only: of_int_le_iff)
    then show "(2 ^ 52 :: real) \<le> of_int \<bar>?n\<bar>" by simp
    show "0 \<le> (2::real) powi (expo x - 52)" by simp
  qed
  also have "\<dots> = \<bar>of_int ?n * 2 powi (expo x - 52)\<bar>" by (simp add: abs_mult)
  finally have "2 ^ 1024 \<le> \<bar>of_int ?n * (2::real) powi (expo x - 52)\<bar>" by simp
  then show ?thesis by (simp add: round64_def Let_def q)
qed

lemma expo_less:
  assumes "x \<noteq> 0" and "\<bar>x\<bar> < 2 powi K"
  shows "expo x < K"
proof -
  have "(2::real) powi expo x < 2 powi K" using expo_bounds [OF assms(1)] assms(2) by linarith
  then show ?thesis
    by (metis linorder_not_less one_le_numeral power_int_increasing leD)
qed

lemma round64_exact:
  assumes "\<bar>m\<bar> < 2 ^ 53" and "- 1074 \<le> k" and "k \<le> 970"
  shows "round64 (of_int m * 2 powi k) = Fin (of_int m * 2 powi k)"
proof (cases "m = 0")
  case True
  then show ?thesis by simp
next
  case False
  let ?x = "of_int m * (2::real) powi k"
  have nz: "?x \<noteq> 0" using False by simp
  have "(of_int \<bar>m\<bar> :: real) < of_int (2 ^ 53)" using assms(1) by (simp only: of_int_less_iff)
  then have m53: "(of_int \<bar>m\<bar> :: real) < 2 ^ 53" by simp
  have ax: "\<bar>?x\<bar> = of_int \<bar>m\<bar> * 2 powi k" by (simp add: abs_mult)
  have "\<bar>?x\<bar> < 2 ^ 53 * 2 powi k"
    unfolding ax using m53 by (intro mult_strict_right_mono) simp_all
  also have "\<dots> = 2 powi (53 + k)"
  proof -
    have "(2::real) powi (53 + k) = 2 powi 53 * 2 powi k" by (rule power_int_add) simp
    then show ?thesis by simp
  qed
  finally have up: "\<bar>?x\<bar> < 2 powi (53 + k)" .
  then have e: "expo ?x < 53 + k" by (rule expo_less [OF nz])
  let ?e = "max (expo ?x) (- 1022)"
  let ?j = "k - (?e - 52)"
  have j: "0 \<le> ?j" using e assms(2) by simp
  have q: "quantum ?x = 2 powi (?e - 52)" by (simp add: quantum_def)
  have k: "(2::real) powi k = 2 powi ?j * 2 powi (?e - 52)"
  proof -
    have eq: "?j + (?e - 52) = k" by simp
    have "(2::real) powi (?j + (?e - 52)) = 2 powi ?j * 2 powi (?e - 52)"
      by (rule power_int_add) simp
    then show ?thesis by (simp only: eq)
  qed
  have pj: "(2::real) powi ?j = of_int (2 ^ nat ?j)" using j by (simp add: power_int_def)
  have "?x / quantum ?x = of_int m * 2 powi ?j"
    unfolding q by (subst k) simp
  also have "\<dots> = of_int (m * 2 ^ nat ?j)" by (simp only: pj of_int_mult)
  finally have "round_half_even (?x / quantum ?x) = m * 2 ^ nat ?j"
    by (simp only: round_half_even_of_int)
  then have r: "of_int (round_half_even (?x / quantum ?x)) * quantum ?x = ?x"
    unfolding q by (subst (3) k) (simp add: pj)
  have "(2::real) powi (53 + k) \<le> 2 powi 1023"
    using assms(3) by (intro power_int_increasing) simp_all
  also have "\<dots> < 2 powi 1024" by (intro power_int_strict_increasing) simp_all
  finally have "\<bar>?x\<bar> < 2 ^ 1024" using up by simp
  then have "\<not> 2 ^ 1024 \<le> \<bar>?x\<bar>" by (simp only: not_le)
  then show ?thesis using nz r by (simp add: round64_def Let_def)
qed

lemma round64_of_int:
  assumes "\<bar>m\<bar> < 2 ^ 53"
  shows "round64 (of_int m) = Fin (of_int m)"
  using round64_exact [OF assms, of 0] by simp

lemma ulp_min_pos [simp]: "0 < ulp_min"
  by (simp add: ulp_min_def)

lemma ulp_min_nonzero [simp]: "ulp_min \<noteq> 0"
  using ulp_min_pos by (rule less_imp_neq [THEN not_sym])

lemma round64_tiny:
  assumes "\<bar>c\<bar> < 2 ^ 52" and "round_half_even c = n" and "n \<noteq> 0"
  shows "round64 (c * ulp_min) = Fin (of_int n * ulp_min)"
proof -
  have cz: "c \<noteq> 0" using assms(2,3) by auto
  have "\<bar>c * ulp_min\<bar> = \<bar>c\<bar> * ulp_min" by (simp add: abs_mult abs_of_pos)
  also have "\<dots> < 2 ^ 52 * ulp_min" using assms(1) by (intro mult_strict_right_mono) simp_all
  also have "\<dots> = 2 powi (- 1022)"
  proof -
    have "(2::real) powi (52 + (- 1074)) = 2 powi 52 * 2 powi (- 1074)"
      by (rule power_int_add) simp
    then show ?thesis by (simp add: ulp_min_def)
  qed
  finally have small: "\<bar>c * ulp_min\<bar> < 2 powi (- 1022)" .
  have x: "c * ulp_min \<noteq> 0" using cz by simp
  have d: "c * ulp_min / 2 powi (- 1074) = c" by (simp add: ulp_min_def)
  have "round_half_even (c * ulp_min / 2 powi (- 1074)) = n" by (simp only: d assms(2))
  from round64_subnormal [OF x small this assms(3)] show ?thesis
    by (simp only: ulp_min_def)
qed

lemma fadd64_Fin: "fadd64 (Fin a) (Fin b) = round64 (a + b)"
  by (simp add: fadd64_def)

lemma fmul64_Fin: "a \<noteq> 0 \<Longrightarrow> b \<noteq> 0 \<Longrightarrow> fmul64 (Fin a) (Fin b) = round64 (a * b)"
  by (simp add: fmul64_def)

lemma fdiv64_Fin: "a \<noteq> 0 \<Longrightarrow> b \<noteq> 0 \<Longrightarrow> fdiv64 (Fin a) (Fin b) = round64 (a / b)"
  by (simp add: fdiv64_def)

lemma is_finite_cases: "is_finite x \<Longrightarrow> x = Fin (val x) \<or> x = NegZero"
  by (cases x) auto

section \<open>Truncation to two decimals\<close>





















section \<open>The formulas in exact arithmetic\<close>

lemma fadd_finite: "is_finite x \<Longrightarrow> is_finite y \<Longrightarrow> is_finite (fadd x y) \<and> val (fadd x y) = val x + val y"
  by (cases x; cases y) (auto simp: fadd_def)

lemma fneg_finite: "is_finite x \<Longrightarrow> is_finite (fneg x) \<and> val (fneg x) = - val x"
  by (cases x) auto

lemma fsub_finite: "is_finite x \<Longrightarrow> is_finite y \<Longrightarrow> is_finite (fsub x y) \<and> val (fsub x y) = val x - val y"
  by (simp add: fsub_def fadd_finite fneg_finite)

lemma fmul_finite: "is_finite x \<Longrightarrow> is_finite y \<Longrightarrow> is_finite (fmul x y) \<and> val (fmul x y) = val x * val y"
  by (cases x; cases y) (auto simp: fmul_def signed_zero_def)

lemma fdiv_finite: "is_finite x \<Longrightarrow> is_finite y \<Longrightarrow> \<not> is_zero y \<Longrightarrow> is_finite (fdiv x y) \<and> val (fdiv x y) = val x / val y"
  by (cases x; cases y) (auto simp: fdiv_def signed_zero_def)

lemma fdiv_Fin: "x \<noteq> 0 \<Longrightarrow> is_finite y \<Longrightarrow> \<not> is_zero y \<Longrightarrow> fdiv (Fin x) y = Fin (x / val y)"
  by (cases y) (auto simp: fdiv_def signed_zero_def)

lemmas float_ops = fadd_def fsub_def fmul_def fdiv_def flt_def fgt_def signed_inf_def signed_zero_def

lemmas eval_defs = quote_def example_Odds_def finite_Odds_def nonzero_Odds_def
  arbitrage_percentage_spec_def report_game_def calculateStakes_def
  calculateArbitragePercentage_def totalStake_def float_ops Let_def

lemma fmul_fdiv_cancel: "is_finite p \<Longrightarrow> \<not> is_zero p \<Longrightarrow> fmul (fdiv x p) p = x"
  by (cases x; cases p) (auto simp: fmul_def fdiv_def signed_inf_def signed_zero_def)

lemma fadd_Fin: "fadd (Fin a) (Fin b) = Fin (a + b)"
  by (simp add: fadd_def)

lemma calculateArbitragePercentage_real:
  assumes "finite_Odds os" and "nonzero_Odds os"
  shows "calculateArbitragePercentage os = Fin (arbitrage_percentage_spec os)"
proof -
  have "fdiv (Fin 1) (Win os) = Fin (1 / val (Win os))"
       "fdiv (Fin 1) (Draw os) = Fin (1 / val (Draw os))"
       "fdiv (Fin 1) (Lose os) = Fin (1 / val (Lose os))"
    using assms by (simp_all add: finite_Odds_def nonzero_Odds_def fdiv_Fin)
  then show ?thesis
    by (simp add: calculateArbitragePercentage_def arbitrage_percentage_spec_def fadd_Fin)
qed

lemma calculateStakes_unfold:
  "calculateStakes os t =
     (fdiv (fdiv t (calculateArbitragePercentage os)) (Win os),
      fdiv (fdiv t (calculateArbitragePercentage os)) (Draw os),
      fdiv (fdiv t (calculateArbitragePercentage os)) (Lose os))"
  by (simp add: calculateStakes_def Let_def)

lemma report_game_Some:
  "report_game g os = Some r \<longleftrightarrow>
     flt (calculateArbitragePercentage os) (Fin 1) \<and>
     r = \<lparr>gameID = g, odds = os,
          winStake = fst (calculateStakes os (Fin 100)),
          drawStake = fst (snd (calculateStakes os (Fin 100))),
          loseStake = snd (snd (calculateStakes os (Fin 100))),
          guaranteedProfit = fsub (fdiv (Fin 100) (calculateArbitragePercentage os))
                                  (totalStake (calculateStakes os (Fin 100)))\<rparr>"
  by (auto simp: report_game_def Let_def)

lemma report_game_None:
  "report_game g os = None \<longleftrightarrow> \<not> flt (calculateArbitragePercentage os) (Fin 1)"
  by (simp add: report_game_def Let_def)

lemma quotient_finite:
  assumes "is_finite t" and "a \<noteq> 0"
  shows "is_finite (fdiv t (Fin a)) \<and> val (fdiv t (Fin a)) = val t / a"
  using fdiv_finite [of t "Fin a"] assms by simp

lemma stakes_finite:
  assumes "finite_Odds os" and "nonzero_Odds os" and "arbitrage_percentage_spec os \<noteq> 0"
      and "is_finite t"
  shows "is_finite (fst (calculateStakes os t))
       \<and> val (fst (calculateStakes os t)) = val t / arbitrage_percentage_spec os / val (Win os)"
    and "is_finite (fst (snd (calculateStakes os t)))
       \<and> val (fst (snd (calculateStakes os t))) = val t / arbitrage_percentage_spec os / val (Draw os)"
    and "is_finite (snd (snd (calculateStakes os t)))
       \<and> val (snd (snd (calculateStakes os t))) = val t / arbitrage_percentage_spec os / val (Lose os)"
proof -
  let ?q = "fdiv t (calculateArbitragePercentage os)"
  have q: "is_finite ?q \<and> val ?q = val t / arbitrage_percentage_spec os"
    using quotient_finite [OF assms(4,3)] calculateArbitragePercentage_real [OF assms(1,2)]
    by simp
  have f: "is_finite (Win os)" "is_finite (Draw os)" "is_finite (Lose os)"
          "\<not> is_zero (Win os)" "\<not> is_zero (Draw os)" "\<not> is_zero (Lose os)"
    using assms(1,2) by (simp_all add: finite_Odds_def nonzero_Odds_def)
  show "is_finite (fst (calculateStakes os t))
       \<and> val (fst (calculateStakes os t)) = val t / arbitrage_percentage_spec os / val (Win os)"
    using fdiv_finite [of ?q "Win os"] q f by (simp add: calculateStakes_unfold)
  show "is_finite (fst (snd (calculateStakes os t)))
       \<and> val (fst (snd (calculateStakes os t))) = val t / arbitrage_percentage_spec os / val (Draw os)"
    using fdiv_finite [of ?q "Draw os"] q f by (simp add: calculateStakes_unfold)
  show "is_finite (snd (snd (calculateStakes os t)))
       \<and> val (snd (snd (calculateStakes os t))) = val t / arbitrage_percentage_spec os / val (Lose os)"
    using fdiv_finite [of ?q "Lose os"] q f by (simp add: calculateStakes_unfold)
qed

lemma totalStake_unfold:
  "totalStake s = fadd (fadd (fst s) (fst (snd s))) (snd (snd s))"
  by (simp add: totalStake_def split: prod.splits)

lemma stakes_sum_real:
  fixes q a w d l :: real
  assumes "a = 1 / w + 1 / d + 1 / l" and "a \<noteq> 0"
  shows "T / a / w + T / a / d + T / a / l = T"
proof -
  have "T / a / w + T / a / d + T / a / l = (T / a) * (1 / w + 1 / d + 1 / l)"
    by (simp add: distrib_left)
  also have "\<dots> = (T / a) * a" using assms(1) by simp
  also have "\<dots> = T" using assms(2) by simp
  finally show ?thesis .
qed

lemma totalStake_finite:
  assumes "finite_Odds os" and "nonzero_Odds os" and "arbitrage_percentage_spec os \<noteq> 0"
      and "is_finite t"
  shows "is_finite (totalStake (calculateStakes os t))
       \<and> val (totalStake (calculateStakes os t)) = val t"
proof -
  note s = stakes_finite [OF assms]
  let ?s = "calculateStakes os t"
  have wd: "is_finite (fadd (fst ?s) (fst (snd ?s)))
         \<and> val (fadd (fst ?s) (fst (snd ?s))) = val (fst ?s) + val (fst (snd ?s))"
    using fadd_finite s(1,2) by blast
  then have tot: "is_finite (totalStake ?s)
         \<and> val (totalStake ?s) = val (fst ?s) + val (fst (snd ?s)) + val (snd (snd ?s))"
    using fadd_finite [of "fadd (fst ?s) (fst (snd ?s))" "snd (snd ?s)"] s(3)
    by (simp add: totalStake_unfold)
  have "val (fst ?s) + val (fst (snd ?s)) + val (snd (snd ?s)) = val t"
    using stakes_sum_real [OF arbitrage_percentage_spec_def assms(3)] s by simp
  then show ?thesis using tot by simp
qed


lemma guaranteedProfit_finite:
  assumes "finite_Odds os" and "nonzero_Odds os" and "arbitrage_percentage_spec os \<noteq> 0"
      and "is_finite t"
  shows "is_finite (fsub (fdiv t (calculateArbitragePercentage os))
                         (totalStake (calculateStakes os t)))
       \<and> val (fsub (fdiv t (calculateArbitragePercentage os))
                    (totalStake (calculateStakes os t)))
           = val t / arbitrage_percentage_spec os - val t"
proof -
  let ?q = "fdiv t (calculateArbitragePercentage os)"
  have q: "is_finite ?q \<and> val ?q = val t / arbitrage_percentage_spec os"
    using quotient_finite [OF assms(4,3)] calculateArbitragePercentage_real [OF assms(1,2)]
    by simp
  show ?thesis
    using fsub_finite [of ?q "totalStake (calculateStakes os t)"] q totalStake_finite [OF assms]
    by simp
qed




text \<open>
  Claim C8 as stated fails: the nonzero prices 1, 1, -1/2 have arbitrage percentage 0,
  the stakes are infinite and their sum is NaN.
\<close>

theorem stakes_sum_counterexample:
  "finite_Odds \<lparr>Win = Fin 1, Draw = Fin 1, Lose = Fin (- 1 / 2)\<rparr>
   \<and> nonzero_Odds \<lparr>Win = Fin 1, Draw = Fin 1, Lose = Fin (- 1 / 2)\<rparr>
   \<and> calculateArbitragePercentage \<lparr>Win = Fin 1, Draw = Fin 1, Lose = Fin (- 1 / 2)\<rparr> = Fin 0
   \<and> calculateStakes \<lparr>Win = Fin 1, Draw = Fin 1, Lose = Fin (- 1 / 2)\<rparr> (Fin 100)
       = (PInf, PInf, NInf)
   \<and> totalStake (calculateStakes \<lparr>Win = Fin 1, Draw = Fin 1, Lose = Fin (- 1 / 2)\<rparr> (Fin 100))
       = NaN"
  by (simp add: eval_defs)

text \<open>
  Claim C8, as amended. For finite nonzero prices whose arbitrage percentage is not
  zero, and every finite total bet, the three stakes sum to the total bet, and the
  profit of a reported game is \<open>100 * (1 / arbitrage_percentage - 1)\<close>. For the odds
  of the worked example and a total bet of 100 the stakes sum to 100.
\<close>

theorem stakes_sum_to_total_bet:
  assumes "finite_Odds os" and "nonzero_Odds os" and "arbitrage_percentage_spec os \<noteq> 0"
      and "is_finite t"
  shows "is_finite (totalStake (calculateStakes os t))
       \<and> val (totalStake (calculateStakes os t)) = val t
       \<and> (report_game g os = Some r \<longrightarrow>
            is_finite (guaranteedProfit r)
            \<and> val (guaranteedProfit r) = 100 * (1 / arbitrage_percentage_spec os - 1))
       \<and> totalStake (calculateStakes example_Odds (Fin 100)) = Fin 100"
proof -
  have c: "is_finite (Fin 100)" by simp
  have p: "is_finite (guaranteedProfit r)
         \<and> val (guaranteedProfit r) = 100 * (1 / arbitrage_percentage_spec os - 1)"
    if r: "report_game g os = Some r"
  proof -
    have gp: "guaranteedProfit r = fsub (fdiv (Fin 100) (calculateArbitragePercentage os))
                                  (totalStake (calculateStakes os (Fin 100)))"
      using r by (simp add: report_game_Some)
    show ?thesis
      using guaranteedProfit_finite [OF assms(1-3) c] by (simp add: gp right_diff_distrib)
  qed
  have e: "totalStake (calculateStakes example_Odds (Fin 100)) = Fin 100"
    by (simp add: eval_defs)
  show ?thesis using totalStake_finite [OF assms] p e by blast
qed

theorem stakes_sum_to_total_bet_witness:
  "finite_Odds (Odds (quote ''e2'' 3 4 5)) \<and> nonzero_Odds (Odds (quote ''e2'' 3 4 5))
   \<and> arbitrage_percentage_spec (Odds (quote ''e2'' 3 4 5)) \<noteq> 0 \<and> is_finite (Fin 100)
   \<and> report_game ''e2'' (Odds (quote ''e2'' 3 4 5)) =
       Some \<lparr>gameID = ''e2'', odds = Odds (quote ''e2'' 3 4 5),
             winStake = Fin (2000 / 47), drawStake = Fin (1500 / 47),
             loseStake = Fin (1200 / 47), guaranteedProfit = Fin (1300 / 47)\<rparr>
   \<and> val (totalStake (calculateStakes (Odds (quote ''e2'' 3 4 5)) (Fin 100))) = 100
   \<and> (1300 / 47 :: real) = 100 * (1 / (47 / 60) - 1)"
  using stakes_sum_to_total_bet [of "Odds (quote ''e2'' 3 4 5)" "Fin 100" "''e2''"
      "\<lparr>gameID = ''e2'', odds = Odds (quote ''e2'' 3 4 5),
             winStake = Fin (2000 / 47), drawStake = Fin (1500 / 47),
             loseStake = Fin (1200 / 47), guaranteedProfit = Fin (1300 / 47)\<rparr>"]
  by (simp add: eval_defs)

section \<open>The best-odds map\<close>

lemma update_best_other: "k \<noteq> ID g \<Longrightarrow> update_best m g k = m k"
  by (simp add: update_best_def Let_def)

lemma update_best_same:
  "\<exists>r. update_best m g (ID g) = Some r
     \<and> Win r = (case m (ID g) of None \<Rightarrow> Win (Odds g)
                | Some b \<Rightarrow> if fgt (Win (Odds g)) (Win b) then Win (Odds g) else Win b)
     \<and> Draw r = (case m (ID g) of None \<Rightarrow> Draw (Odds g)
                | Some b \<Rightarrow> if fgt (Draw (Odds g)) (Draw b) then Draw (Odds g) else Draw b)
     \<and> Lose r = (case m (ID g) of None \<Rightarrow> Lose (Odds g)
                | Some b \<Rightarrow> if fgt (Lose (Odds g)) (Lose b) then Lose (Odds g) else Lose b)"
  by (simp add: update_best_def Let_def zero_Odds_def split: option.splits)

lemma dom_update_best: "dom (update_best m g) = insert (ID g) (dom m)"
  by (simp add: update_best_def Let_def)

lemma dom_games_loop: "dom (games_loop m gs) = dom m \<union> ID ` set gs"
  by (induction gs arbitrary: m) (auto simp: dom_update_best)

lemma games_loop_append: "games_loop m (xs @ ys) = games_loop (games_loop m xs) ys"
  by (induction xs arbitrary: m) auto

lemma bookmakers_loop_concat:
  "bookmakers_loop m bs = games_loop m (concat (map Games bs))"
  by (induction bs arbitrary: m) (auto simp: games_loop_append)

lemma not_fgt_le: "is_finite x \<Longrightarrow> is_finite y \<Longrightarrow> \<not> fgt x y \<Longrightarrow> val x \<le> val y"
  by (cases x; cases y) (auto simp: fgt_def flt_def)

lemma fgt_le: "is_finite x \<Longrightarrow> is_finite y \<Longrightarrow> fgt x y \<Longrightarrow> val y \<le> val x"
  by (cases x; cases y) (auto simp: fgt_def flt_def)

lemma games_loop_field:
  fixes f :: "Odds \<Rightarrow> float64"
  assumes step: "\<And>m g. \<exists>r. update_best m g (ID g) = Some r
            \<and> f r = (case m (ID g) of None \<Rightarrow> f (Odds g)
                      | Some b \<Rightarrow> if fgt (f (Odds g)) (f b) then f (Odds g) else f b)"
      and "\<forall>g\<in>set gs. ID g = k \<longrightarrow> is_finite (f (Odds g))"
      and "\<forall>b. m k = Some b \<longrightarrow> is_finite (f b)"
      and "m k \<noteq> None \<or> k \<in> ID ` set gs"
  shows "\<exists>r. games_loop m gs k = Some r \<and> is_finite (f r)
          \<and> (f r \<in> {f (Odds g) | g. g \<in> set gs \<and> ID g = k} \<union> {f b | b. m k = Some b})
          \<and> (\<forall>g\<in>set gs. ID g = k \<longrightarrow> val (f (Odds g)) \<le> val (f r))
          \<and> (\<forall>b. m k = Some b \<longrightarrow> val (f b) \<le> val (f r))"
  using assms(2-4)
proof (induction gs arbitrary: m)
  case Nil
  then show ?case by auto
next
  case (Cons g gs)
  let ?m = "update_best m g"
  have fin_gs: "\<forall>g\<in>set gs. ID g = k \<longrightarrow> is_finite (f (Odds g))"
    using Cons.prems(1) by simp
  show ?case
  proof (cases "ID g = k")
    case False
    then have same: "?m k = m k" by (simp add: update_best_other)
    have ex: "?m k \<noteq> None \<or> k \<in> ID ` set gs"
      using Cons.prems(3) False same by auto
    have "\<forall>b. ?m k = Some b \<longrightarrow> is_finite (f b)"
      using Cons.prems(2) same by simp
    from Cons.IH [of ?m, OF fin_gs this ex] obtain r where
      r: "games_loop ?m gs k = Some r" "is_finite (f r)"
         "f r \<in> {f (Odds g) | g. g \<in> set gs \<and> ID g = k} \<union> {f b | b. ?m k = Some b}"
         "\<forall>g\<in>set gs. ID g = k \<longrightarrow> val (f (Odds g)) \<le> val (f r)"
         "\<forall>b. ?m k = Some b \<longrightarrow> val (f b) \<le> val (f r)"
      by blast
    show ?thesis
      using r False by (auto simp: same)
  next
    case True
    from step [of m g] obtain r0 where
      r0: "?m k = Some r0"
          "f r0 = (case m k of None \<Rightarrow> f (Odds g)
                    | Some b \<Rightarrow> if fgt (f (Odds g)) (f b) then f (Odds g) else f b)"
      using True by auto
    have fg: "is_finite (f (Odds g))" using Cons.prems(1) True by simp
    have fin0: "is_finite (f r0)"
      using r0(2) fg Cons.prems(2) by (auto split: option.splits)
    have mem0: "f r0 = f (Odds g) \<or> (\<exists>b. m k = Some b \<and> f r0 = f b)"
      using r0(2) by (auto split: option.splits)
    have ge_new: "val (f (Odds g)) \<le> val (f r0)"
      using r0(2) fg Cons.prems(2) by (auto split: option.splits dest: not_fgt_le)
    have ge_old: "\<forall>b. m k = Some b \<longrightarrow> val (f b) \<le> val (f r0)"
      using r0(2) fg Cons.prems(2) by (auto split: option.splits dest: fgt_le)
    have "\<forall>b. ?m k = Some b \<longrightarrow> is_finite (f b)"
      using r0(1) fin0 by simp
    moreover have "?m k \<noteq> None \<or> k \<in> ID ` set gs" using r0(1) by simp
    ultimately obtain r where
      r: "games_loop ?m gs k = Some r" "is_finite (f r)"
         "f r \<in> {f (Odds g) | g. g \<in> set gs \<and> ID g = k} \<union> {f b | b. ?m k = Some b}"
         "\<forall>g\<in>set gs. ID g = k \<longrightarrow> val (f (Odds g)) \<le> val (f r)"
         "\<forall>b. ?m k = Some b \<longrightarrow> val (f b) \<le> val (f r)"
      using Cons.IH [of ?m, OF fin_gs] by blast
    have up: "val (f r0) \<le> val (f r)" using r(5) r0(1) by simp
    have "f r \<in> {f (Odds q) | q. q \<in> set (g # gs) \<and> ID q = k} \<union> {f b | b. m k = Some b}"
      using r(3) r0(1) mem0 True by auto
    moreover have "\<forall>q\<in>set (g # gs). ID q = k \<longrightarrow> val (f (Odds q)) \<le> val (f r)"
      using r(4) ge_new up by auto
    moreover have "\<forall>b. m k = Some b \<longrightarrow> val (f b) \<le> val (f r)"
      using ge_old up by auto
    ultimately show ?thesis using r(1,2) by auto
  qed
qed


lemma findBestOdds_games_loop:
  "findBestOdds bs = games_loop Map.empty (concat (map Games bs))"
  by (simp add: findBestOdds_def bookmakers_loop_concat)

lemma set_quotes_for:
  "set (quotes_for bs k) = {q. \<exists>b\<in>set bs. q \<in> set (Games b) \<and> ID q = k}"
  by (auto simp: quotes_for_def)

lemma dom_findBestOdds: "dom (findBestOdds bs) = (\<Union>b\<in>set bs. ID ` set (Games b))"
  by (auto simp: findBestOdds_games_loop dom_games_loop)

lemma findBestOdds_field:
  fixes f :: "Odds \<Rightarrow> float64"
  assumes step: "\<And>m g. \<exists>r. update_best m g (ID g) = Some r
            \<and> f r = (case m (ID g) of None \<Rightarrow> f (Odds g)
                      | Some b \<Rightarrow> if fgt (f (Odds g)) (f b) then f (Odds g) else f b)"
      and fin: "\<forall>q\<in>set (quotes_for bs k). is_finite (f (Odds q))"
      and best: "findBestOdds bs k = Some best"
  shows "f best \<in> (\<lambda>q. f (Odds q)) ` set (quotes_for bs k)
       \<and> (\<forall>q\<in>set (quotes_for bs k). val (f (Odds q)) \<le> val (f best))
       \<and> val (f best) = Max ((\<lambda>q. val (f (Odds q))) ` set (quotes_for bs k))"
proof -
  let ?gs = "concat (map Games bs)"
  have q: "set (quotes_for bs k) = {g. g \<in> set ?gs \<and> ID g = k}"
    by (auto simp: quotes_for_def)
  have a: "\<forall>g\<in>set ?gs. ID g = k \<longrightarrow> is_finite (f (Odds g))"
    using fin q by blast
  have b: "\<forall>b. Map.empty k = Some b \<longrightarrow> is_finite (f b)" by simp
  have "k \<in> dom (games_loop Map.empty ?gs)"
    using best by (auto simp: findBestOdds_games_loop)
  then have c: "Map.empty k \<noteq> None \<or> k \<in> ID ` set ?gs"
    by (simp add: dom_games_loop)
  from games_loop_field [of f ?gs k Map.empty, OF step a b c] best
  have mem: "f best \<in> {f (Odds g) | g. g \<in> set ?gs \<and> ID g = k}"
    and ub: "\<forall>g\<in>set ?gs. ID g = k \<longrightarrow> val (f (Odds g)) \<le> val (f best)"
    by (auto simp: findBestOdds_games_loop)
  have 1: "f best \<in> (\<lambda>q. f (Odds q)) ` set (quotes_for bs k)"
    using mem q by auto
  have 2: "\<forall>q\<in>set (quotes_for bs k). val (f (Odds q)) \<le> val (f best)"
    using ub q by auto
  have "Max ((\<lambda>q. val (f (Odds q))) ` set (quotes_for bs k)) = val (f best)"
  proof (rule Max_eqI)
    show "finite ((\<lambda>q. val (f (Odds q))) ` set (quotes_for bs k))" by simp
    show "y \<le> val (f best)" if "y \<in> (\<lambda>q. val (f (Odds q))) ` set (quotes_for bs k)" for y
      using that 2 by auto
    show "val (f best) \<in> (\<lambda>q. val (f (Odds q))) ` set (quotes_for bs k)"
      using 1 by auto
  qed
  then show ?thesis using 1 2 by simp
qed

lemma step_Win:
  "\<exists>r. update_best m g (ID g) = Some r
     \<and> Win r = (case m (ID g) of None \<Rightarrow> Win (Odds g)
                | Some b \<Rightarrow> if fgt (Win (Odds g)) (Win b) then Win (Odds g) else Win b)"
  using update_best_same [of m g] by blast

lemma step_Draw:
  "\<exists>r. update_best m g (ID g) = Some r
     \<and> Draw r = (case m (ID g) of None \<Rightarrow> Draw (Odds g)
                | Some b \<Rightarrow> if fgt (Draw (Odds g)) (Draw b) then Draw (Odds g) else Draw b)"
  using update_best_same [of m g] by blast

lemma step_Lose:
  "\<exists>r. update_best m g (ID g) = Some r
     \<and> Lose r = (case m (ID g) of None \<Rightarrow> Lose (Odds g)
                | Some b \<Rightarrow> if fgt (Lose (Odds g)) (Lose b) then Lose (Odds g) else Lose b)"
  using update_best_same [of m g] by blast

lemma findBestOdds_fields:
  assumes fin: "\<forall>b\<in>set bs. \<forall>q\<in>set (Games b). finite_Odds (Odds q)"
      and best: "findBestOdds bs k = Some best"
  shows "val (Win best) = Max ((\<lambda>q. val (Win (Odds q))) ` set (quotes_for bs k))"
    and "val (Draw best) = Max ((\<lambda>q. val (Draw (Odds q))) ` set (quotes_for bs k))"
    and "val (Lose best) = Max ((\<lambda>q. val (Lose (Odds q))) ` set (quotes_for bs k))"
    and "\<forall>q\<in>set (quotes_for bs k).
           val (Win (Odds q)) \<le> val (Win best) \<and> val (Draw (Odds q)) \<le> val (Draw best)
           \<and> val (Lose (Odds q)) \<le> val (Lose best)"
    and "Win best \<in> (\<lambda>q. Win (Odds q)) ` set (quotes_for bs k)
         \<and> Draw best \<in> (\<lambda>q. Draw (Odds q)) ` set (quotes_for bs k)
         \<and> Lose best \<in> (\<lambda>q. Lose (Odds q)) ` set (quotes_for bs k)"
proof -
  have f: "\<forall>q\<in>set (quotes_for bs k). finite_Odds (Odds q)"
    using fin by (auto simp: set_quotes_for)
  have w: "\<forall>q\<in>set (quotes_for bs k). is_finite (Win (Odds q))"
    and d: "\<forall>q\<in>set (quotes_for bs k). is_finite (Draw (Odds q))"
    and l: "\<forall>q\<in>set (quotes_for bs k). is_finite (Lose (Odds q))"
    using f by (simp_all add: finite_Odds_def)
  note W = findBestOdds_field [of Win, OF step_Win w best]
  note D = findBestOdds_field [of Draw, OF step_Draw d best]
  note L = findBestOdds_field [of Lose, OF step_Lose l best]
  show "val (Win best) = Max ((\<lambda>q. val (Win (Odds q))) ` set (quotes_for bs k))"
    using W by simp
  show "val (Draw best) = Max ((\<lambda>q. val (Draw (Odds q))) ` set (quotes_for bs k))"
    using D by simp
  show "val (Lose best) = Max ((\<lambda>q. val (Lose (Odds q))) ` set (quotes_for bs k))"
    using L by simp
  show "\<forall>q\<in>set (quotes_for bs k).
           val (Win (Odds q)) \<le> val (Win best) \<and> val (Draw (Odds q)) \<le> val (Draw best)
           \<and> val (Lose (Odds q)) \<le> val (Lose best)"
    using W D L by blast
  show "Win best \<in> (\<lambda>q. Win (Odds q)) ` set (quotes_for bs k)
         \<and> Draw best \<in> (\<lambda>q. Draw (Odds q)) ` set (quotes_for bs k)
         \<and> Lose best \<in> (\<lambda>q. Lose (Odds q)) ` set (quotes_for bs k)"
    using W D L by blast
qed

text \<open>
  Claim C1. For bookmakers whose quotes are finite and a game id quoted by at least one of
  them, \<open>findBestOdds\<close> stores an entry for the id, and each of its fields is the
  maximum of that field over all quotes of the id, each field on its own; hence each
  stored field is at least every bookmaker's value for that field and that game.
\<close>

theorem findBestOdds_maximum:
  assumes "\<forall>b\<in>set bookmakers. \<forall>q\<in>set (Games b). finite_Odds (Odds q)"
      and "\<exists>b\<in>set bookmakers. \<exists>q\<in>set (Games b). ID q = k"
  shows "\<exists>best. findBestOdds bookmakers k = Some best
       \<and> val (Win best) = Max ((\<lambda>q. val (Win (Odds q))) ` set (quotes_for bookmakers k))
       \<and> val (Draw best) = Max ((\<lambda>q. val (Draw (Odds q))) ` set (quotes_for bookmakers k))
       \<and> val (Lose best) = Max ((\<lambda>q. val (Lose (Odds q))) ` set (quotes_for bookmakers k))
       \<and> (\<forall>b\<in>set bookmakers. \<forall>q\<in>set (Games b). ID q = k \<longrightarrow>
             val (Win (Odds q)) \<le> val (Win best) \<and> val (Draw (Odds q)) \<le> val (Draw best)
             \<and> val (Lose (Odds q)) \<le> val (Lose best))"
proof -
  have "k \<in> dom (findBestOdds bookmakers)"
    using assms(2) by (auto simp: dom_findBestOdds)
  then obtain best where best: "findBestOdds bookmakers k = Some best" by blast
  note F = findBestOdds_fields [OF assms(1) best]
  have "\<forall>b\<in>set bookmakers. \<forall>q\<in>set (Games b). ID q = k \<longrightarrow>
             val (Win (Odds q)) \<le> val (Win best) \<and> val (Draw (Odds q)) \<le> val (Draw best)
             \<and> val (Lose (Odds q)) \<le> val (Lose best)"
    using F(4) by (auto simp: set_quotes_for)
  then show ?thesis using best F(1-3) by blast
qed

text \<open>
  Claim C9. The keys of the map returned by \<open>findBestOdds\<close> are exactly the game ids
  of the bookmakers' games; the map is empty exactly when every bookmaker has no game
  (also for no bookmaker at all); and every quote of an id, from whichever bookmaker and
  however often, is folded into the one entry of that id: for finite quotes each stored
  field is one of the quoted values and their maximum.
\<close>

theorem findBestOdds_keys:
  "dom (findBestOdds bookmakers) = (\<Union>b\<in>set bookmakers. ID ` set (Games b))
   \<and> (findBestOdds bookmakers = Map.empty \<longleftrightarrow> (\<forall>b\<in>set bookmakers. Games b = []))
   \<and> ((\<forall>b\<in>set bookmakers. \<forall>q\<in>set (Games b). finite_Odds (Odds q)) \<longrightarrow>
        (\<forall>k best. findBestOdds bookmakers k = Some best \<longrightarrow>
           quotes_for bookmakers k \<noteq> []
           \<and> Win best \<in> (\<lambda>q. Win (Odds q)) ` set (quotes_for bookmakers k)
           \<and> Draw best \<in> (\<lambda>q. Draw (Odds q)) ` set (quotes_for bookmakers k)
           \<and> Lose best \<in> (\<lambda>q. Lose (Odds q)) ` set (quotes_for bookmakers k)
           \<and> val (Win best) = Max ((\<lambda>q. val (Win (Odds q))) ` set (quotes_for bookmakers k))
           \<and> val (Draw best) = Max ((\<lambda>q. val (Draw (Odds q))) ` set (quotes_for bookmakers k))
           \<and> val (Lose best) = Max ((\<lambda>q. val (Lose (Odds q))) ` set (quotes_for bookmakers k))))"
proof -
  have 1: "dom (findBestOdds bookmakers) = (\<Union>b\<in>set bookmakers. ID ` set (Games b))"
    by (rule dom_findBestOdds)
  have "findBestOdds bookmakers = Map.empty \<longleftrightarrow> dom (findBestOdds bookmakers) = {}"
    by simp
  also have "\<dots> \<longleftrightarrow> (\<forall>b\<in>set bookmakers. Games b = [])"
    unfolding 1 by auto
  finally have 2: "findBestOdds bookmakers = Map.empty \<longleftrightarrow> (\<forall>b\<in>set bookmakers. Games b = [])" .
  have 3: "quotes_for bookmakers k \<noteq> []
           \<and> Win best \<in> (\<lambda>q. Win (Odds q)) ` set (quotes_for bookmakers k)
           \<and> Draw best \<in> (\<lambda>q. Draw (Odds q)) ` set (quotes_for bookmakers k)
           \<and> Lose best \<in> (\<lambda>q. Lose (Odds q)) ` set (quotes_for bookmakers k)
           \<and> val (Win best) = Max ((\<lambda>q. val (Win (Odds q))) ` set (quotes_for bookmakers k))
           \<and> val (Draw best) = Max ((\<lambda>q. val (Draw (Odds q))) ` set (quotes_for bookmakers k))
           \<and> val (Lose best) = Max ((\<lambda>q. val (Lose (Odds q))) ` set (quotes_for bookmakers k))"
    if fin: "\<forall>b\<in>set bookmakers. \<forall>q\<in>set (Games b). finite_Odds (Odds q)"
      and best: "findBestOdds bookmakers k = Some best" for k best
  proof -
    note F = findBestOdds_fields [OF fin best]
    have "quotes_for bookmakers k \<noteq> []" using F(5) by auto
    then show ?thesis using F(1,2,3,5) by simp
  qed
  show ?thesis using 1 2 3 by blast
qed


lemmas best_defs = findBestOdds_def example_bookmakers_def quote_def update_best_def
  zero_Odds_def example_Odds_def Let_def fgt_def flt_def

lemma findBestOdds_example:
  "findBestOdds example_bookmakers ''e1'' = Some example_Odds"
  "findBestOdds example_bookmakers ''e2'' = Some (Odds (quote ''e2'' 3 4 5))"
  "dom (findBestOdds example_bookmakers) = {''e1'', ''e2''}"
  by (auto simp: best_defs)

lemma quotes_for_example:
  "quotes_for example_bookmakers ''e1'' =
     [quote ''e1'' (21 / 10) 3 4, quote ''e1'' (19 / 10) (35 / 10) (42 / 10),
      quote ''e1'' 2 (32 / 10) (41 / 10)]"
  by (simp add: quotes_for_def example_bookmakers_def quote_def)

theorem findBestOdds_maximum_witness:
  "list_all (\<lambda>b. list_all (\<lambda>q. finite_Odds (Odds q)) (Games b)) example_bookmakers
   \<and> quotes_for example_bookmakers ''e1'' =
       [quote ''e1'' (21 / 10) 3 4, quote ''e1'' (19 / 10) (35 / 10) (42 / 10),
        quote ''e1'' 2 (32 / 10) (41 / 10)]
   \<and> findBestOdds example_bookmakers ''e1''
       = Some \<lparr>Win = Fin (21 / 10), Draw = Fin (35 / 10), Lose = Fin (42 / 10)\<rparr>
   \<and> Max ((\<lambda>q. val (Win (Odds q))) ` set (quotes_for example_bookmakers ''e1'')) = 21 / 10
   \<and> Max ((\<lambda>q. val (Draw (Odds q))) ` set (quotes_for example_bookmakers ''e1'')) = 35 / 10
   \<and> Max ((\<lambda>q. val (Lose (Odds q))) ` set (quotes_for example_bookmakers ''e1'')) = 42 / 10"
proof -
  have h1: "\<forall>b\<in>set example_bookmakers. \<forall>q\<in>set (Games b). finite_Odds (Odds q)"
    by (simp add: example_bookmakers_def quote_def finite_Odds_def)
  have h2: "\<exists>b\<in>set example_bookmakers. \<exists>q\<in>set (Games b). ID q = ''e1''"
    by (simp add: example_bookmakers_def quote_def)
  have e: "findBestOdds example_bookmakers ''e1''
       = Some \<lparr>Win = Fin (21 / 10), Draw = Fin (35 / 10), Lose = Fin (42 / 10)\<rparr>"
    using findBestOdds_example(1) by (simp add: example_Odds_def)
  have l: "list_all (\<lambda>b. list_all (\<lambda>q. finite_Odds (Odds q)) (Games b)) example_bookmakers"
    using h1 by (simp add: list_all_iff)
  show ?thesis
    using findBestOdds_maximum [OF h1 h2] e l quotes_for_example by auto
qed

theorem findBestOdds_keys_witness:
  "list_all (\<lambda>b. list_all (\<lambda>q. finite_Odds (Odds q)) (Games b)) example_bookmakers
   \<and> dom (findBestOdds example_bookmakers) = {''e1'', ''e2''}
   \<and> findBestOdds example_bookmakers \<noteq> Map.empty
   \<and> findBestOdds [] = Map.empty
   \<and> findBestOdds [\<lparr>Name = ''A'', Games = []\<rparr>] = Map.empty
   \<and> findBestOdds example_bookmakers ''e1'' = Some example_Odds
   \<and> val (Draw example_Odds)
       = Max ((\<lambda>q. val (Draw (Odds q))) ` set (quotes_for example_bookmakers ''e1''))"
proof -
  have h1: "\<forall>b\<in>set example_bookmakers. \<forall>q\<in>set (Games b). finite_Odds (Odds q)"
    by (simp add: example_bookmakers_def quote_def finite_Odds_def)
  have l: "list_all (\<lambda>b. list_all (\<lambda>q. finite_Odds (Odds q)) (Games b)) example_bookmakers"
    using h1 by (simp add: list_all_iff)
  have a: "findBestOdds example_bookmakers \<noteq> Map.empty"
    using findBestOdds_keys [of example_bookmakers]
    by (simp add: example_bookmakers_def)
  have b: "findBestOdds [] = Map.empty"
    using findBestOdds_keys [of "[]"] by simp
  have c: "findBestOdds [\<lparr>Name = ''A'', Games = []\<rparr>] = Map.empty"
    using findBestOdds_keys [of "[\<lparr>Name = ''A'', Games = []\<rparr>]"] by simp
  have d: "val (Draw example_Odds)
       = Max ((\<lambda>q. val (Draw (Odds q))) ` set (quotes_for example_bookmakers ''e1''))"
    using findBestOdds_keys [of example_bookmakers] h1 findBestOdds_example(1) by blast
  show ?thesis
    using l a b c d findBestOdds_example by simp
qed

section \<open>The program's float64 arithmetic\<close>







lemma calculateStakes64_unfold:
  "calculateStakes64 os t =
     (fdiv64 (fdiv64 t (calculateArbitragePercentage64 os)) (Win os),
      fdiv64 (fdiv64 t (calculateArbitragePercentage64 os)) (Draw os),
      fdiv64 (fdiv64 t (calculateArbitragePercentage64 os)) (Lose os))"
  by (simp add: calculateStakes64_def Let_def)



lemma report_game64_None:
  "report_game64 g os = None \<longleftrightarrow> \<not> flt (calculateArbitragePercentage64 os) (Fin 1)"
  by (simp add: report_game64_def Let_def)




text \<open>The odds 2, 3, 6: the reciprocals and their sums, rounded.\<close>

lemma recip_3: "round64 (1 / 3) = Fin (6004799503160661 / 18014398509481984)"
  using round64_normal [of "- 2" "1 / 3" "6004799503160661"] by (simp add: round_half_even_def)








lemma float64_small_int: "\<bar>m\<bar> < 2 ^ 53 \<Longrightarrow> is_float64 (Fin (of_int m))"
  by (simp add: is_float64_def round64_of_int)













section \<open>Zero prices\<close>

lemma recip64_zero:
  "fdiv64 (Fin 1) (Fin 0) = PInf" "fdiv64 (Fin 1) NegZero = NInf"
  by (simp_all add: fdiv64_def signed_inf_def)

lemma recip64_not_NaN: "is_finite x \<Longrightarrow> fdiv64 (Fin 1) x \<noteq> NaN"
  by (cases x) (auto simp: fdiv64_def signed_inf_def)

lemma fadd64_not_finite:
  "\<not> is_finite x \<Longrightarrow> \<not> is_finite (fadd64 x y)" "\<not> is_finite y \<Longrightarrow> \<not> is_finite (fadd64 x y)"
  by (cases x; cases y; simp add: fadd64_def)+

lemma fadd64_PInf_left: "fadd64 PInf y = PInf \<or> fadd64 PInf y = NaN"
  by (cases y) (simp_all add: fadd64_def)

lemma fadd64_PInf_right: "fadd64 x PInf = PInf \<or> fadd64 x PInf = NaN"
  by (cases x) (simp_all add: fadd64_def)

lemma fadd64_NaN [simp]: "fadd64 NaN y = NaN" "fadd64 x NaN = NaN"
  by (simp_all add: fadd64_def)

lemmas fadd64_PInf = fadd64_PInf_left fadd64_PInf_right fadd64_NaN

lemma fdiv64_1_2: "fdiv64 (Fin 1) (Fin 2) = Fin (1 / 2)"
  using round64_exact [of 1 "- 1"] by (simp add: fdiv64_def)

lemma fdiv64_1_3: "fdiv64 (Fin 1) (Fin 3) = Fin (6004799503160661 / 18014398509481984)"
  by (simp add: fdiv64_def recip_3)

lemma not_finite_cases: "\<not> is_finite x \<Longrightarrow> x = PInf \<or> x = NInf \<or> x = NaN"
  by (cases x) auto

text \<open>
  Claim C5 as stated fails: with a win price of 0 the percentage is \<open>+\<infinity>\<close>, not a
  failure, and \<open>calculateStakes\<close> itself returns a NaN stake.
\<close>

theorem zero_price_counterexample:
  "calculateArbitragePercentage64 \<lparr>Win = Fin 0, Draw = Fin 2, Lose = Fin 3\<rparr> = PInf
   \<and> calculateStakes64 \<lparr>Win = Fin 0, Draw = Fin 2, Lose = Fin 3\<rparr> (Fin 100)
       = (NaN, Fin 0, Fin 0)"
proof -
  have h: "round64 (1 / 2) = Fin (1 / 2)" using round64_exact [of 1 "- 1"] by simp
  have a: "calculateArbitragePercentage64 \<lparr>Win = Fin 0, Draw = Fin 2, Lose = Fin 3\<rparr> = PInf"
    by (simp add: calculateArbitragePercentage64_def fdiv64_def fadd64_def signed_inf_def
        h recip_3)
  show ?thesis
    by (simp add: calculateStakes64_def a fdiv64_def signed_zero_def)
qed

text \<open>
  Claim C5, as amended. The code has no failure value: for finite odds with a zero
  price, \<open>calculateArbitragePercentage\<close> returns an infinity or NaN. The game is
  reported (and stakes are computed) exactly when that value is \<open>-\<infinity>\<close>; when no
  price is the negative zero the value is \<open>+\<infinity>\<close> or NaN and the game is skipped
  without any stake computation.
\<close>

theorem zero_price_not_rejected:
  assumes "float64_Odds os" and "finite_Odds os"
      and "is_zero (Win os) \<or> is_zero (Draw os) \<or> is_zero (Lose os)"
  shows "\<not> is_finite (calculateArbitragePercentage64 os)
       \<and> (report_game64 g os \<noteq> None \<longleftrightarrow> calculateArbitragePercentage64 os = NInf)
       \<and> (Win os \<noteq> NegZero \<and> Draw os \<noteq> NegZero \<and> Lose os \<noteq> NegZero \<longrightarrow>
            (calculateArbitragePercentage64 os = PInf \<or> calculateArbitragePercentage64 os = NaN)
            \<and> report_game64 g os = None)"
proof -
  let ?a = "fdiv64 (Fin 1) (Win os)" and ?b = "fdiv64 (Fin 1) (Draw os)"
  and ?c = "fdiv64 (Fin 1) (Lose os)"
  let ?A = "calculateArbitragePercentage64 os"
  have A: "?A = fadd64 (fadd64 ?a ?b) ?c" by (simp add: calculateArbitragePercentage64_def)
  have f: "is_finite (Win os)" "is_finite (Draw os)" "is_finite (Lose os)"
    using assms(2) by (simp_all add: finite_Odds_def)
  have z: "is_finite x \<Longrightarrow> is_zero x \<Longrightarrow> x = NegZero \<or> x = Fin 0" for x
    by (cases x) auto
  have i: "is_finite x \<Longrightarrow> is_zero x \<Longrightarrow> \<not> is_finite (fdiv64 (Fin 1) x)" for x
    using z [of x] recip64_zero by auto
  have "\<not> is_finite ?a \<or> \<not> is_finite ?b \<or> \<not> is_finite ?c"
    using assms(3) f i by blast
  then have nf: "\<not> is_finite ?A"
    unfolding A using fadd64_not_finite by blast
  have r: "report_game64 g os \<noteq> None \<longleftrightarrow> ?A = NInf"
    using not_finite_cases [OF nf] by (auto simp: report_game64_None flt_def)
  have p: "?A = PInf \<or> ?A = NaN"
    if n: "Win os \<noteq> NegZero \<and> Draw os \<noteq> NegZero \<and> Lose os \<noteq> NegZero"
  proof -
    have "?a = PInf \<or> ?b = PInf \<or> ?c = PInf"
      using assms(3) f n z recip64_zero(1) by metis
    then show ?thesis
      unfolding A using fadd64_PInf by metis
  qed
  have "report_game64 g os = None" if "?A = PInf \<or> ?A = NaN"
    using that r by auto
  then show ?thesis using nf r p by blast
qed

lemma recip64_tiny_negative: "fdiv64 (Fin 1) (Fin (- ulp_min)) = NInf"
proof -
  have "1 / (- ulp_min) = - (2 powi 1074)"
    by (simp add: ulp_min_def power_int_minus field_simps)
  moreover have "(2::real) powi 1024 \<le> \<bar>- (2 powi 1074)\<bar>"
  proof -
    have "(2::real) powi 1024 \<le> 2 powi 1074" by (intro power_int_increasing) simp_all
    moreover have "\<bar>- ((2::real) powi 1074)\<bar> = 2 powi 1074"
      by (simp only: abs_minus_cancel) (rule abs_of_pos, rule zero_less_power_int, simp)
    ultimately show ?thesis by (simp only:)
  qed
  ultimately have "round64 (1 / (- ulp_min)) = signed_inf (- (2 powi 1074) < (0::real))"
    using round64_overflow by metis
  then show ?thesis by (simp add: fdiv64_def signed_inf_def)
qed

theorem zero_price_not_rejected_witness:
  "float64_Odds \<lparr>Win = Fin 0, Draw = Fin 2, Lose = Fin 3\<rparr>
   \<and> finite_Odds \<lparr>Win = Fin 0, Draw = Fin 2, Lose = Fin 3\<rparr>
   \<and> is_zero (Win \<lparr>Win = Fin 0, Draw = Fin 2, Lose = Fin 3\<rparr>)
   \<and> calculateArbitragePercentage64 \<lparr>Win = Fin 0, Draw = Fin 2, Lose = Fin 3\<rparr> = PInf
   \<and> report_game64 ''e'' \<lparr>Win = Fin 0, Draw = Fin 2, Lose = Fin 3\<rparr> = None
   \<and> calculateArbitragePercentage64 \<lparr>Win = Fin 0, Draw = Fin (- ulp_min), Lose = Fin 3\<rparr> = NaN
   \<and> calculateArbitragePercentage64 \<lparr>Win = NegZero, Draw = Fin 2, Lose = Fin 3\<rparr> = NInf
   \<and> report_game64 ''e'' \<lparr>Win = NegZero, Draw = Fin 2, Lose = Fin 3\<rparr> \<noteq> None"
proof -
  let ?os = "\<lparr>Win = Fin 0, Draw = Fin 2, Lose = Fin 3\<rparr>"
  have h: "round64 (1 / 2) = Fin (1 / 2)" using round64_exact [of 1 "- 1"] by simp
  have fl: "float64_Odds ?os"
    using float64_small_int [of 0] float64_small_int [of 2] float64_small_int [of 3]
    by (simp add: float64_Odds_def)
  have fi: "finite_Odds ?os" by (simp add: finite_Odds_def)
  have a: "calculateArbitragePercentage64 ?os = PInf"
    by (simp add: calculateArbitragePercentage64_def fdiv64_def fadd64_def signed_inf_def
        h recip_3)
  have n: "report_game64 ''e'' ?os = None"
    using zero_price_not_rejected [of ?os "''e''"] fl fi by simp
  have b: "calculateArbitragePercentage64 \<lparr>Win = Fin 0, Draw = Fin (- ulp_min), Lose = Fin 3\<rparr>
             = NaN"
    by (simp add: calculateArbitragePercentage64_def recip64_zero recip64_tiny_negative
        fadd64_def)
  have c: "calculateArbitragePercentage64 \<lparr>Win = NegZero, Draw = Fin 2, Lose = Fin 3\<rparr> = NInf"
    by (simp add: calculateArbitragePercentage64_def recip64_zero fdiv64_1_2 fdiv64_1_3
        fadd64_def)
  have d: "report_game64 ''e'' \<lparr>Win = NegZero, Draw = Fin 2, Lose = Fin 3\<rparr> \<noteq> None"
    by (simp add: report_game64_None c flt_def)
  show ?thesis using fl fi a n b c d by simp
qed

section \<open>Payouts\<close>

lemma powi2_double: "2 * (2::real) powi k = 2 powi (k + 1)"
proof -
  have "(2::real) powi (k + 1) = 2 powi k * 2 powi 1" by (rule power_int_add) simp
  then show ?thesis by simp
qed

lemma powi2_half: "(2::real) powi k / 2 = 2 powi (k - 1)"
  using powi2_double [of "k - 1"] by simp

lemma powi2_quotient: "(2::real) powi a / 2 powi b = 2 powi (a - b)"
  by (simp add: power_int_diff)

lemma payout_close:
  assumes "2 powi (- 1000) \<le> \<bar>q\<bar>" and "\<bar>q\<bar> \<le> 2 powi 1000"
      and "is_finite p" and "2 powi (- 20) \<le> \<bar>val p\<bar>" and "\<bar>val p\<bar> \<le> 2 powi 20"
  shows "\<exists>P. fmul64 (fdiv64 (Fin q) p) p = Fin P \<and> \<bar>P - q\<bar> \<le> \<bar>q\<bar> / 2 ^ 51"
proof -
  let ?v = "val p"
  have "0 < (2::real) powi (- 20)" by simp
  with assms(4) have av: "0 < \<bar>?v\<bar>" by linarith
  then have vz: "?v \<noteq> 0" by simp
  then have p: "p = Fin ?v" using assms(3) by (cases p) auto
  have "0 < (2::real) powi (- 1000)" by simp
  with assms(1) have aq: "0 < \<bar>q\<bar>" by linarith
  then have qz: "q \<noteq> 0" by simp
  let ?x = "q / ?v"
  have ax: "\<bar>?x\<bar> = \<bar>q\<bar> / \<bar>?v\<bar>" by simp
  have xv: "\<bar>?x\<bar> * \<bar>?v\<bar> = \<bar>q\<bar>" using vz by (simp add: ax)
  have "(2::real) powi (- 1022) \<le> 2 powi (- 1000 - 20)" by (intro power_int_increasing) simp_all
  also have "\<dots> = 2 powi (- 1000) / 2 powi 20" by (simp only: powi2_quotient)
  also have "\<dots> \<le> \<bar>q\<bar> / \<bar>?v\<bar>" using assms(1,5) av by (intro frac_le) simp_all
  finally have xlo: "2 powi (- 1022) \<le> \<bar>?x\<bar>" by (simp only: ax)
  have "\<bar>q\<bar> / \<bar>?v\<bar> \<le> 2 powi 1000 / 2 powi (- 20)" using assms(2,4) by (intro frac_le) simp_all
  also have "\<dots> = 2 powi (1000 - (- 20))" by (simp only: powi2_quotient)
  also have "\<dots> \<le> 2 powi 1023" by (intro power_int_increasing) simp_all
  finally have xhi: "\<bar>?x\<bar> \<le> 2 powi 1023" by (simp only: ax)
  have e53: "(2::real) powi (- 53) = 1 / 2 ^ 53" by (simp add: power_int_minus field_simps)
  from round64_rel_error [OF xlo xhi] obtain s where
    s: "round64 ?x = Fin s" "s \<noteq> 0" "\<bar>s - ?x\<bar> \<le> 1 / 2 ^ 53 * \<bar>?x\<bar>"
    by (auto simp only: e53)
  have d: "fdiv64 (Fin q) p = Fin s"
    by (subst p) (simp add: fdiv64_Fin [OF qz vz] s(1))
  let ?y = "s * ?v"
  have "\<bar>?y - q\<bar> = \<bar>s - ?x\<bar> * \<bar>?v\<bar>"
  proof -
    have "?y - q = (s - ?x) * ?v" using vz by (simp add: field_simps)
    then show ?thesis by (simp only: abs_mult)
  qed
  also have "\<dots> \<le> (1 / 2 ^ 53 * \<bar>?x\<bar>) * \<bar>?v\<bar>" using s(3) by (intro mult_right_mono) simp_all
  also have "\<dots> = 1 / 2 ^ 53 * \<bar>q\<bar>" by (simp only: mult.assoc xv)
  finally have yq: "\<bar>?y - q\<bar> \<le> 1 / 2 ^ 53 * \<bar>q\<bar>" .
  have h: "1 / 2 ^ 53 * \<bar>q\<bar> \<le> \<bar>q\<bar> / 2" using aq by simp
  have y1: "\<bar>?y\<bar> \<le> 2 * \<bar>q\<bar>" and y2: "\<bar>q\<bar> / 2 \<le> \<bar>?y\<bar>" using yq h by linarith+
  have "(2::real) powi (- 1022) \<le> 2 powi (- 1000 - 1)" by (intro power_int_increasing) simp_all
  also have "\<dots> = 2 powi (- 1000) / 2" by (simp only: powi2_half)
  also have "\<dots> \<le> \<bar>q\<bar> / 2" using assms(1) by simp
  finally have ylo: "2 powi (- 1022) \<le> \<bar>?y\<bar>" using y2 by linarith
  have "2 * \<bar>q\<bar> \<le> 2 * 2 powi 1000" using assms(2) by simp
  also have "\<dots> = 2 powi (1000 + 1)" by (simp only: powi2_double)
  also have "\<dots> \<le> 2 powi 1023" by (intro power_int_increasing) simp_all
  finally have yhi: "\<bar>?y\<bar> \<le> 2 powi 1023" using y1 by linarith
  from round64_rel_error [OF ylo yhi] obtain P where
    P: "round64 ?y = Fin P" "\<bar>P - ?y\<bar> \<le> 1 / 2 ^ 53 * \<bar>?y\<bar>"
    by (auto simp only: e53)
  have m: "fmul64 (Fin s) p = Fin P"
    by (subst p) (simp add: fmul64_Fin [OF s(2) vz] P(1))
  have "\<bar>P - q\<bar> \<le> 1 / 2 ^ 53 * \<bar>?y\<bar> + 1 / 2 ^ 53 * \<bar>q\<bar>" using P(2) yq by linarith
  also have "\<dots> \<le> 1 / 2 ^ 53 * (2 * \<bar>q\<bar>) + 1 / 2 ^ 53 * \<bar>q\<bar>" using y1 by simp
  also have "\<dots> \<le> \<bar>q\<bar> / 2 ^ 51" using aq by simp
  finally have "\<bar>P - q\<bar> \<le> \<bar>q\<bar> / 2 ^ 51" .
  then show ?thesis using d m by simp
qed

lemma tolerance_from_close:
  assumes "\<bar>a - q\<bar> \<le> \<bar>q\<bar> / 2 ^ 51" and "\<bar>b - q\<bar> \<le> \<bar>q\<bar> / 2 ^ 51"
  shows "within_tolerance a q" and "within_tolerance a b"
proof -
  have "\<bar>q\<bar> / 2 ^ 51 \<le> \<bar>q\<bar> / 10 ^ 9" by (intro divide_left_mono) simp_all
  then show "within_tolerance a q" using assms(1) by (simp add: within_tolerance_def)
  have c: "\<bar>q\<bar> / 2 ^ 51 = \<bar>q\<bar> * (1 / 2 ^ 51)" by simp
  have "\<bar>a - b\<bar> \<le> 2 * (\<bar>q\<bar> * (1 / 2 ^ 51))" using assms unfolding c by linarith
  moreover have "\<bar>q\<bar> - \<bar>q\<bar> * (1 / 2 ^ 51) \<le> \<bar>b\<bar>" using assms(2) unfolding c by linarith
  moreover have "2 * (\<bar>q\<bar> * (1 / 2 ^ 51)) \<le> (\<bar>q\<bar> - \<bar>q\<bar> * (1 / 2 ^ 51)) / 10 ^ 9"
    by (simp add: field_simps)
  ultimately have "\<bar>a - b\<bar> \<le> \<bar>b\<bar> / 10 ^ 9" by (simp add: field_simps)
  then show "within_tolerance a b" by (simp add: within_tolerance_def)
qed

text \<open>The odds 3, 4, 5: percentage, and quotient for a total bet of 100.\<close>

lemma recip_5: "round64 (1 / 5) = Fin (3602879701896397 / 18014398509481984)"
  using round64_normal [of "- 3" "1 / 5" "7205759403792794"] by (simp add: round_half_even_def)

lemma sum_345_a: "round64 (10508399130531157 / 18014398509481984) = Fin (2627099782632789 / 4503599627370496)"
  using round64_normal [of "- 1" "10508399130531157 / 18014398509481984" "5254199565265578"] by (simp add: round_half_even_def)

lemma sum_345_b: "round64 (14111278832427553 / 18014398509481984) = Fin (440977463513361 / 562949953421312)"
  using round64_normal [of "- 1" "14111278832427553 / 18014398509481984" "7055639416213776"] by (simp add: round_half_even_def)

lemma quot_345: "round64 (56294995342131200 / 440977463513361) = Fin (8983243937574129 / 70368744177664)"
  using round64_normal [of "6" "56294995342131200 / 440977463513361" "8983243937574129"] by (simp add: round_half_even_def)

lemma fdiv64_1_4: "fdiv64 (Fin 1) (Fin 4) = Fin (1 / 4)"
  using round64_exact [of 1 "- 2"] by (simp add: fdiv64_def)

lemma fdiv64_1_5: "fdiv64 (Fin 1) (Fin 5) = Fin (3602879701896397 / 18014398509481984)"
  by (simp add: fdiv64_def recip_5)

lemma percentage_345:
  "calculateArbitragePercentage64 \<lparr>Win = Fin 3, Draw = Fin 4, Lose = Fin 5\<rparr> = Fin (440977463513361 / 562949953421312)"
  by (simp add: calculateArbitragePercentage64_def fdiv64_1_3 fdiv64_1_4 fdiv64_1_5
      fadd64_def sum_345_a sum_345_b)

lemma tiny_quotient:
  assumes "b \<noteq> 0" and "c \<noteq> 0" and "\<bar>c / b\<bar> < 2 ^ 52" and "round_half_even (c / b) = n"
      and "n \<noteq> 0"
  shows "fdiv64 (Fin (c * ulp_min)) (Fin b) = Fin (of_int n * ulp_min)"
proof -
  have "c * ulp_min / b = c / b * ulp_min" by simp
  then have "round64 (c * ulp_min / b) = Fin (of_int n * ulp_min)"
    using round64_tiny [OF assms(3,4,5)] by (simp only:)
  then show ?thesis using assms(1,2) by (simp add: fdiv64_def)
qed

lemma tiny_product:
  assumes "b \<noteq> 0" and "c \<noteq> 0" and "\<bar>c * b\<bar> < 2 ^ 52" and "round_half_even (c * b) = n"
      and "n \<noteq> 0"
  shows "fmul64 (Fin (c * ulp_min)) (Fin b) = Fin (of_int n * ulp_min)"
proof -
  have "c * ulp_min * b = c * b * ulp_min" by simp
  then have "round64 (c * ulp_min * b) = Fin (of_int n * ulp_min)"
    using round64_tiny [OF assms(3,4,5)] by (simp only:)
  then show ?thesis using assms(1,2) by (simp add: fmul64_def)
qed

lemma not_within_tolerance: "\<not> within_tolerance (27 * ulp_min) (24 * ulp_min)"
proof -
  have "\<bar>27 * ulp_min - 24 * ulp_min\<bar> = 3 * ulp_min" by (simp add: abs_of_pos)
  moreover have "\<bar>24 * ulp_min\<bar> / 10 ^ 9 < 3 * ulp_min" by (simp add: abs_of_pos)
  ultimately show ?thesis by (simp add: within_tolerance_def)
qed

text \<open>
  Claim C3 as stated fails in floating point: for the odds 3, 4, 5, whose percentage is
  below 1, and the positive total bet \<open>20 * 2^-1074\<close> (the float64 value nearest
  \<open>1e-322\<close>), the three payouts are 27, 24 and 25 times \<open>2^-1074\<close>, more than a tenth
  apart.
\<close>

theorem payouts_tolerance_counterexample:
  "flt (calculateArbitragePercentage64 \<lparr>Win = Fin 3, Draw = Fin 4, Lose = Fin 5\<rparr>) (Fin 1)
   \<and> 0 < 20 * ulp_min \<and> is_float64 (Fin (20 * ulp_min))
   \<and> fdiv64 (Fin (20 * ulp_min))
        (calculateArbitragePercentage64 \<lparr>Win = Fin 3, Draw = Fin 4, Lose = Fin 5\<rparr>)
       = Fin (26 * ulp_min)
   \<and> fmul64 (fst (calculateStakes64 \<lparr>Win = Fin 3, Draw = Fin 4, Lose = Fin 5\<rparr>
                    (Fin (20 * ulp_min)))) (Fin 3) = Fin (27 * ulp_min)
   \<and> fmul64 (fst (snd (calculateStakes64 \<lparr>Win = Fin 3, Draw = Fin 4, Lose = Fin 5\<rparr>
                    (Fin (20 * ulp_min))))) (Fin 4) = Fin (24 * ulp_min)
   \<and> fmul64 (snd (snd (calculateStakes64 \<lparr>Win = Fin 3, Draw = Fin 4, Lose = Fin 5\<rparr>
                    (Fin (20 * ulp_min))))) (Fin 5) = Fin (25 * ulp_min)
   \<and> \<not> within_tolerance (27 * ulp_min) (24 * ulp_min)"
proof -
  let ?os = "\<lparr>Win = Fin 3, Draw = Fin 4, Lose = Fin 5\<rparr>"
  have lt: "flt (calculateArbitragePercentage64 ?os) (Fin 1)"
    by (simp add: percentage_345 flt_def)
  have fl: "is_float64 (Fin (20 * ulp_min))"
    using round64_tiny [of 20 20] by (simp add: is_float64_def round_half_even_def)
  have q: "fdiv64 (Fin (20 * ulp_min)) (Fin (440977463513361 / 562949953421312)) = Fin (26 * ulp_min)"
    using tiny_quotient [of "440977463513361 / 562949953421312" 20 26] by (simp add: round_half_even_def)
  have w: "fdiv64 (Fin (26 * ulp_min)) (Fin 3) = Fin (9 * ulp_min)"
    using tiny_quotient [of 3 26 9] by (simp add: round_half_even_def)
  have d: "fdiv64 (Fin (26 * ulp_min)) (Fin 4) = Fin (6 * ulp_min)"
    using tiny_quotient [of 4 26 6] by (simp add: round_half_even_def)
  have l: "fdiv64 (Fin (26 * ulp_min)) (Fin 5) = Fin (5 * ulp_min)"
    using tiny_quotient [of 5 26 5] by (simp add: round_half_even_def)
  have pw: "fmul64 (Fin (9 * ulp_min)) (Fin 3) = Fin (27 * ulp_min)"
    using tiny_product [of 3 9 27] by (simp add: round_half_even_def)
  have pd: "fmul64 (Fin (6 * ulp_min)) (Fin 4) = Fin (24 * ulp_min)"
    using tiny_product [of 4 6 24] by (simp add: round_half_even_def)
  have pl: "fmul64 (Fin (5 * ulp_min)) (Fin 5) = Fin (25 * ulp_min)"
    using tiny_product [of 5 5 25] by (simp add: round_half_even_def)
  have s: "calculateStakes64 ?os (Fin (20 * ulp_min))
             = (Fin (9 * ulp_min), Fin (6 * ulp_min), Fin (5 * ulp_min))"
    by (simp only: calculateStakes64_unfold percentage_345 q w d l Odds.simps)
  show ?thesis
    using lt fl not_within_tolerance
    by (simp only: s percentage_345 q pw pd pl fst_conv snd_conv) simp
qed

text \<open>
  Claim C3, as amended. For finite nonzero prices with arbitrage percentage below 1 and a
  positive total bet, the payout \<open>stake * price\<close> of each of the three outcomes is the
  same value \<open>total_bet / arbitrage_percentage\<close> in exact arithmetic. In float64, when
  each price has a magnitude between \<open>2^-20\<close> and \<open>2^20\<close> and the computed quotient
  \<open>total_bet / arbitrage_percentage\<close> has a magnitude between \<open>2^-1000\<close> and
  \<open>2^1000\<close>, each payout is within the relative error \<open>2^-51\<close> of that quotient, hence
  within the relative tolerance \<open>1e-9\<close> of it and of the other payouts.
\<close>

theorem payouts_equal:
  "(finite_Odds os \<and> nonzero_Odds os
      \<and> flt (calculateArbitragePercentage os) (Fin 1) \<and> 0 < t \<longrightarrow>
      fmul (fst (calculateStakes os (Fin t))) (Win os)
        = fdiv (Fin t) (calculateArbitragePercentage os)
      \<and> fmul (fst (snd (calculateStakes os (Fin t)))) (Draw os)
        = fdiv (Fin t) (calculateArbitragePercentage os)
      \<and> fmul (snd (snd (calculateStakes os (Fin t)))) (Lose os)
        = fdiv (Fin t) (calculateArbitragePercentage os))
   \<and> (float64_Odds os \<and> is_float64 (Fin t) \<and> 0 < t
      \<and> flt (calculateArbitragePercentage64 os) (Fin 1)
      \<and> moderate (Win os) \<and> moderate (Draw os) \<and> moderate (Lose os)
      \<and> fdiv64 (Fin t) (calculateArbitragePercentage64 os) = Fin q
      \<and> 2 powi (- 1000) \<le> \<bar>q\<bar> \<and> \<bar>q\<bar> \<le> 2 powi 1000 \<longrightarrow>
      is_finite (fmul64 (fst (calculateStakes64 os (Fin t))) (Win os))
      \<and> is_finite (fmul64 (fst (snd (calculateStakes64 os (Fin t)))) (Draw os))
      \<and> is_finite (fmul64 (snd (snd (calculateStakes64 os (Fin t)))) (Lose os))
      \<and> \<bar>val (fmul64 (fst (calculateStakes64 os (Fin t))) (Win os)) - q\<bar> \<le> \<bar>q\<bar> / 2 ^ 51
      \<and> \<bar>val (fmul64 (fst (snd (calculateStakes64 os (Fin t)))) (Draw os)) - q\<bar> \<le> \<bar>q\<bar> / 2 ^ 51
      \<and> \<bar>val (fmul64 (snd (snd (calculateStakes64 os (Fin t)))) (Lose os)) - q\<bar> \<le> \<bar>q\<bar> / 2 ^ 51
      \<and> within_tolerance (val (fmul64 (fst (calculateStakes64 os (Fin t))) (Win os))) q
      \<and> within_tolerance (val (fmul64 (fst (snd (calculateStakes64 os (Fin t)))) (Draw os))) q
      \<and> within_tolerance (val (fmul64 (snd (snd (calculateStakes64 os (Fin t)))) (Lose os))) q
      \<and> within_tolerance (val (fmul64 (fst (calculateStakes64 os (Fin t))) (Win os)))
                          (val (fmul64 (fst (snd (calculateStakes64 os (Fin t)))) (Draw os)))
      \<and> within_tolerance (val (fmul64 (fst (snd (calculateStakes64 os (Fin t)))) (Draw os)))
                          (val (fmul64 (snd (snd (calculateStakes64 os (Fin t)))) (Lose os)))
      \<and> within_tolerance (val (fmul64 (fst (calculateStakes64 os (Fin t))) (Win os)))
                          (val (fmul64 (snd (snd (calculateStakes64 os (Fin t)))) (Lose os))))"
proof -
  have exact:
    "fmul (fst (calculateStakes os (Fin t))) (Win os)
        = fdiv (Fin t) (calculateArbitragePercentage os)
      \<and> fmul (fst (snd (calculateStakes os (Fin t)))) (Draw os)
        = fdiv (Fin t) (calculateArbitragePercentage os)
      \<and> fmul (snd (snd (calculateStakes os (Fin t)))) (Lose os)
        = fdiv (Fin t) (calculateArbitragePercentage os)"
    if h: "finite_Odds os \<and> nonzero_Odds os
      \<and> flt (calculateArbitragePercentage os) (Fin 1) \<and> 0 < t"
  proof -
    have f: "is_finite (Win os)" "is_finite (Draw os)" "is_finite (Lose os)"
            "\<not> is_zero (Win os)" "\<not> is_zero (Draw os)" "\<not> is_zero (Lose os)"
      using h by (simp_all add: finite_Odds_def nonzero_Odds_def)
    then show ?thesis by (simp add: calculateStakes_unfold fmul_fdiv_cancel)
  qed
  have rounded:
    "is_finite (fmul64 (fst (calculateStakes64 os (Fin t))) (Win os))
      \<and> is_finite (fmul64 (fst (snd (calculateStakes64 os (Fin t)))) (Draw os))
      \<and> is_finite (fmul64 (snd (snd (calculateStakes64 os (Fin t)))) (Lose os))
      \<and> \<bar>val (fmul64 (fst (calculateStakes64 os (Fin t))) (Win os)) - q\<bar> \<le> \<bar>q\<bar> / 2 ^ 51
      \<and> \<bar>val (fmul64 (fst (snd (calculateStakes64 os (Fin t)))) (Draw os)) - q\<bar> \<le> \<bar>q\<bar> / 2 ^ 51
      \<and> \<bar>val (fmul64 (snd (snd (calculateStakes64 os (Fin t)))) (Lose os)) - q\<bar> \<le> \<bar>q\<bar> / 2 ^ 51
      \<and> within_tolerance (val (fmul64 (fst (calculateStakes64 os (Fin t))) (Win os))) q
      \<and> within_tolerance (val (fmul64 (fst (snd (calculateStakes64 os (Fin t)))) (Draw os))) q
      \<and> within_tolerance (val (fmul64 (snd (snd (calculateStakes64 os (Fin t)))) (Lose os))) q
      \<and> within_tolerance (val (fmul64 (fst (calculateStakes64 os (Fin t))) (Win os)))
                          (val (fmul64 (fst (snd (calculateStakes64 os (Fin t)))) (Draw os)))
      \<and> within_tolerance (val (fmul64 (fst (snd (calculateStakes64 os (Fin t)))) (Draw os)))
                          (val (fmul64 (snd (snd (calculateStakes64 os (Fin t)))) (Lose os)))
      \<and> within_tolerance (val (fmul64 (fst (calculateStakes64 os (Fin t))) (Win os)))
                          (val (fmul64 (snd (snd (calculateStakes64 os (Fin t)))) (Lose os)))"
    if h: "float64_Odds os \<and> is_float64 (Fin t) \<and> 0 < t
      \<and> flt (calculateArbitragePercentage64 os) (Fin 1)
      \<and> moderate (Win os) \<and> moderate (Draw os) \<and> moderate (Lose os)
      \<and> fdiv64 (Fin t) (calculateArbitragePercentage64 os) = Fin q
      \<and> 2 powi (- 1000) \<le> \<bar>q\<bar> \<and> \<bar>q\<bar> \<le> 2 powi 1000"
  proof -
    from h have q: "fdiv64 (Fin t) (calculateArbitragePercentage64 os) = Fin q"
      and lo: "2 powi (- 1000) \<le> \<bar>q\<bar>" and hi: "\<bar>q\<bar> \<le> 2 powi 1000" by simp_all
    have close: "\<exists>P. fmul64 (fdiv64 (Fin q) p) p = Fin P \<and> \<bar>P - q\<bar> \<le> \<bar>q\<bar> / 2 ^ 51"
      if "moderate p" for p
      using that payout_close [OF lo hi, of p] by (simp add: moderate_def)
    from close [of "Win os"] h obtain pw where
      pw: "fmul64 (fdiv64 (Fin q) (Win os)) (Win os) = Fin pw" "\<bar>pw - q\<bar> \<le> \<bar>q\<bar> / 2 ^ 51"
      by blast
    from close [of "Draw os"] h obtain pd where
      pd: "fmul64 (fdiv64 (Fin q) (Draw os)) (Draw os) = Fin pd" "\<bar>pd - q\<bar> \<le> \<bar>q\<bar> / 2 ^ 51"
      by blast
    from close [of "Lose os"] h obtain pl where
      pl: "fmul64 (fdiv64 (Fin q) (Lose os)) (Lose os) = Fin pl" "\<bar>pl - q\<bar> \<le> \<bar>q\<bar> / 2 ^ 51"
      by blast
    have s: "calculateStakes64 os (Fin t)
               = (fdiv64 (Fin q) (Win os), fdiv64 (Fin q) (Draw os), fdiv64 (Fin q) (Lose os))"
      by (simp only: calculateStakes64_unfold q)
    have w: "fmul64 (fst (calculateStakes64 os (Fin t))) (Win os) = Fin pw"
      and d: "fmul64 (fst (snd (calculateStakes64 os (Fin t)))) (Draw os) = Fin pd"
      and l: "fmul64 (snd (snd (calculateStakes64 os (Fin t)))) (Lose os) = Fin pl"
      by (simp_all only: s fst_conv snd_conv pw(1) pd(1) pl(1))
    note t1 = tolerance_from_close [OF pw(2) pd(2)]
    note t2 = tolerance_from_close [OF pd(2) pl(2)]
    note t3 = tolerance_from_close [OF pl(2) pw(2)]
    note t4 = tolerance_from_close [OF pw(2) pl(2)]
    show ?thesis
      unfolding w d l using pw(2) pd(2) pl(2) t1 t2 t3(1) t4(2) by simp
  qed
  show ?thesis using exact rounded by blast
qed

theorem payouts_equal_witness:
  "finite_Odds \<lparr>Win = Fin 3, Draw = Fin 4, Lose = Fin 5\<rparr>
   \<and> nonzero_Odds \<lparr>Win = Fin 3, Draw = Fin 4, Lose = Fin 5\<rparr>
   \<and> flt (calculateArbitragePercentage \<lparr>Win = Fin 3, Draw = Fin 4, Lose = Fin 5\<rparr>) (Fin 1)
   \<and> (0::real) < 100
   \<and> fmul (fst (calculateStakes \<lparr>Win = Fin 3, Draw = Fin 4, Lose = Fin 5\<rparr> (Fin 100))) (Fin 3)
       = Fin (6000 / 47)
   \<and> fdiv (Fin 100) (calculateArbitragePercentage \<lparr>Win = Fin 3, Draw = Fin 4, Lose = Fin 5\<rparr>)
       = Fin (6000 / 47)
   \<and> float64_Odds \<lparr>Win = Fin 3, Draw = Fin 4, Lose = Fin 5\<rparr> \<and> is_float64 (Fin 100)
   \<and> flt (calculateArbitragePercentage64 \<lparr>Win = Fin 3, Draw = Fin 4, Lose = Fin 5\<rparr>) (Fin 1)
   \<and> moderate (Fin 3) \<and> moderate (Fin 4) \<and> moderate (Fin 5)
   \<and> fdiv64 (Fin 100) (calculateArbitragePercentage64 \<lparr>Win = Fin 3, Draw = Fin 4, Lose = Fin 5\<rparr>)
       = Fin (8983243937574129 / 70368744177664)
   \<and> within_tolerance
        (val (fmul64 (fst (calculateStakes64 \<lparr>Win = Fin 3, Draw = Fin 4, Lose = Fin 5\<rparr>
                            (Fin 100))) (Fin 3)))
        (val (fmul64 (fst (snd (calculateStakes64 \<lparr>Win = Fin 3, Draw = Fin 4, Lose = Fin 5\<rparr>
                            (Fin 100)))) (Fin 4)))"
proof -
  let ?os = "\<lparr>Win = Fin 3, Draw = Fin 4, Lose = Fin 5\<rparr>"
  let ?q = "8983243937574129 / 70368744177664 :: real"
  note T = payouts_equal [of ?os 100 ?q]
  have e: "finite_Odds ?os \<and> nonzero_Odds ?os
      \<and> flt (calculateArbitragePercentage ?os) (Fin 1) \<and> (0::real) < 100"
    by (simp add: finite_Odds_def nonzero_Odds_def calculateArbitragePercentage_def float_ops)
  then have "fmul (fst (calculateStakes ?os (Fin 100))) (Win ?os)
        = fdiv (Fin 100) (calculateArbitragePercentage ?os)"
    using T by blast
  moreover have x: "fdiv (Fin 100) (calculateArbitragePercentage ?os) = Fin (6000 / 47)"
    by (simp add: calculateArbitragePercentage_def float_ops)
  ultimately have p: "fmul (fst (calculateStakes ?os (Fin 100))) (Fin 3) = Fin (6000 / 47)"
    by simp
  have fl: "float64_Odds ?os"
    using float64_small_int [of 3] float64_small_int [of 4] float64_small_int [of 5]
    by (simp add: float64_Odds_def)
  have ft: "is_float64 (Fin 100)" using float64_small_int [of 100] by simp
  have lt: "flt (calculateArbitragePercentage64 ?os) (Fin 1)"
    by (simp add: percentage_345 flt_def)
  have m: "moderate (Fin 3)" "moderate (Fin 4)" "moderate (Fin 5)"
    by (simp_all add: moderate_def)
  have q: "fdiv64 (Fin 100) (calculateArbitragePercentage64 ?os) = Fin ?q"
    by (simp add: percentage_345 fdiv64_def quot_345)
  have r: "2 powi (- 1000) \<le> \<bar>?q\<bar> \<and> \<bar>?q\<bar> \<le> 2 powi 1000"
  proof
    have "(2::real) powi (- 1000) \<le> 2 powi 0" by (intro power_int_increasing) simp_all
    then show "2 powi (- 1000) \<le> \<bar>?q\<bar>" by simp
    have "(2::real) powi 10 \<le> 2 powi 1000" by (intro power_int_increasing) simp_all
    moreover have "\<bar>?q\<bar> \<le> 2 powi 10" by simp
    ultimately show "\<bar>?q\<bar> \<le> 2 powi 1000" by (rule order_trans [rotated])
  qed
  have "within_tolerance
        (val (fmul64 (fst (calculateStakes64 ?os (Fin 100))) (Win ?os)))
        (val (fmul64 (fst (snd (calculateStakes64 ?os (Fin 100)))) (Draw ?os)))"
    using T fl ft lt m q r by simp
  then show ?thesis using e p x fl ft lt m q by simp
qed

end
